theory Spec2Isabelle
  imports Main
begin

section \<open>ContextWarV4: a shallow embedding of the contract\<close>

text \<open>
  The embedding follows \<^verbatim>\<open>src/contracts/ContextWarV4.sol\<close>.

  \<^item> A \<^verbatim>\<open>uint256\<close> is a \<^typ>\<open>nat\<close>; Solidity 0.8 checks every \<^verbatim>\<open>+\<close>, \<^verbatim>\<open>-\<close> and
    \<^verbatim>\<open>*\<close> and reverts with a panic on overflow or underflow, which is written out
    (\<open>add256\<close>, \<open>sub256\<close>, \<open>mul256\<close>).
  \<^item> An \<^verbatim>\<open>address\<close> is a \<^typ>\<open>nat\<close>; \<^verbatim>\<open>address(0)\<close> is \<open>0\<close>.
  \<^item> A \<^verbatim>\<open>string\<close> is its list of bytes.
  \<^item> A revert is \<open>Inl\<close> of the error; a call that returns is \<open>Inr\<close> of the new
    state. A reverted call leaves the storage as it was (\<open>apply_tx\<close>).
  \<^item> \<^verbatim>\<open>msg.sender\<close> and \<^verbatim>\<open>block.timestamp\<close> are the first two arguments of every
    entry point.
  \<^item> The USDC token and the ether balances are the two external ledgers the contract
    talks to. They are part of the state: a token transfer fails when the payer
    lacks the balance (or the allowance) or when the token refuses the recipient; an
    ether send fails when the recipient rejects it or the contract lacks the balance.
    A recipient's code does nothing but accept or reject the ether it is sent.
  \<^item> Events are not modelled.
\<close>

subsection \<open>Errors and checked arithmetic\<close>

type_synonym address = nat

datatype error =
    NoActiveRound | RoundNotActive | RoundStillActive | RoundAlreadyResolved
  | PreviousRoundNotResolved | RoundNotStarted | RoundEnded | InvalidSlot | BidTooLow
  | WordTooLong | WordEmpty | WordContainsSpace | SlotCapReached | NotOracle
  | AllocationMismatch | RakeTooHigh | SplitTooHigh | EmptyPrizePool | EmergencyNotReady
  | NeedMorePlayers | HasMultiplePlayers | NothingToClaim | InvalidSlotCap
  | Panic                \<comment> \<open>checked arithmetic, array index out of bounds\<close>
  | OwnableUnauthorized  \<comment> \<open>\<^verbatim>\<open>onlyOwner\<close>\<close>
  | EnforcedPause        \<comment> \<open>\<^verbatim>\<open>whenNotPaused\<close>\<close>
  | ExpectedPause
  | TokenTransferFailed  \<comment> \<open>\<^verbatim>\<open>SafeERC20\<close>: the token call failed\<close>
  | RequireFailed        \<comment> \<open>a \<^verbatim>\<open>require\<close> with a message\<close>
  | InsufficientFunds    \<comment> \<open>the caller cannot send the ether it attaches\<close>

definition bindE :: "error + 'a \<Rightarrow> ('a \<Rightarrow> error + 'b) \<Rightarrow> error + 'b" where
  "bindE m f = (case m of Inl e \<Rightarrow> Inl e | Inr x \<Rightarrow> f x)"

definition MAX_UINT256 :: nat where
  "MAX_UINT256 = 2 ^ 256 - 1"

definition add256 :: "nat \<Rightarrow> nat \<Rightarrow> error + nat" where
  "add256 a b = (if a + b \<le> MAX_UINT256 then Inr (a + b) else Inl Panic)"

definition sub256 :: "nat \<Rightarrow> nat \<Rightarrow> error + nat" where
  "sub256 a b = (if b \<le> a then Inr (a - b) else Inl Panic)"

definition mul256 :: "nat \<Rightarrow> nat \<Rightarrow> error + nat" where
  "mul256 a b = (if a * b \<le> MAX_UINT256 then Inr (a * b) else Inl Panic)"

subsection \<open>Constants\<close>

definition NUM_SLOTS :: nat where "NUM_SLOTS = 12"
definition MAX_WORD_LENGTH :: nat where "MAX_WORD_LENGTH = 22"
definition MAX_RAKE_BPS :: nat where "MAX_RAKE_BPS = 2000"
definition EMERGENCY_TIMEOUT :: nat where "EMERGENCY_TIMEOUT = 86400"
definition ANTI_SNIPE_WINDOW :: nat where "ANTI_SNIPE_WINDOW = 60"
definition ANTI_SNIPE_EXTENSION :: nat where "ANTI_SNIPE_EXTENSION = 60"
definition MIN_AUTO_START :: nat where "MIN_AUTO_START = 1000000"

subsection \<open>Storage\<close>

record WordSlot =
  word :: string
  owner :: address
  highestTotal :: nat

text \<open>The field \<^verbatim>\<open>id\<close> of the struct is \<open>round_id\<close> here (\<open>id\<close> is the identity of HOL).\<close>

record Round =
  round_id :: nat
  createdAt :: nat
  startedAt :: nat
  endTime :: nat
  prizePool :: nat
  ethPrizePool :: nat
  resolved :: bool

text \<open>
  The fixed array \<^verbatim>\<open>WordSlot[12] slots\<close> is a function on the indices below
  \<open>NUM_SLOTS\<close>. The nested mappings are curried functions; an unset key reads 0,
  \<open>False\<close> or the empty array, as in Solidity.
\<close>

record state =
  thisAddress :: address
  usdc :: address
  contractOwner :: address
  paused :: bool
  minBid :: nat
  oracleAddress :: address
  roundDuration :: nat
  rakeBps :: nat
  splitBps :: nat
  maxSlotsPerPlayer :: nat
  accumulatedRake :: nat
  nextPrizePool :: nat
  pendingEth :: nat
  currentRound :: Round
  slots :: "nat \<Rightarrow> WordSlot"
  cumulativeBids :: "nat \<Rightarrow> nat \<Rightarrow> address \<Rightarrow> nat"
  totalSpent :: "nat \<Rightarrow> address \<Rightarrow> nat"
  playerSlotCount :: "nat \<Rightarrow> address \<Rightarrow> nat"
  roundPlayers :: "nat \<Rightarrow> address list"
  isPlayer :: "nat \<Rightarrow> address \<Rightarrow> bool"
  unclaimedEth :: "address \<Rightarrow> nat"
  usdcBal :: "address \<Rightarrow> nat"
  usdcAllowance :: "address \<Rightarrow> nat"
  usdcDenied :: "address \<Rightarrow> bool"
  ethBal :: "address \<Rightarrow> nat"
  ethRejects :: "address \<Rightarrow> bool"

definition emptySlot :: WordSlot where
  "emptySlot = \<lparr>word = [], owner = 0, highestTotal = 0\<rparr>"

subsection \<open>The two external ledgers\<close>

text \<open>
  \<^verbatim>\<open>usdc.safeTransfer(to, amount)\<close>: the contract pays; any failure of the token
  reverts the whole call.
\<close>

definition usdcSafeTransfer :: "address \<Rightarrow> nat \<Rightarrow> state \<Rightarrow> error + state" where
  "usdcSafeTransfer to amount s =
     (if usdcBal s (thisAddress s) < amount \<or> usdcDenied s to then Inl TokenTransferFailed
      else
        let b1 = (usdcBal s)(thisAddress s := usdcBal s (thisAddress s) - amount);
            b2 = b1(to := b1 to + amount)
        in Inr (s\<lparr>usdcBal := b2\<rparr>))"

text \<open>\<^verbatim>\<open>usdc.safeTransferFrom(from, address(this), amount)\<close>.\<close>

definition usdcSafeTransferFrom :: "address \<Rightarrow> nat \<Rightarrow> state \<Rightarrow> error + state" where
  "usdcSafeTransferFrom from amount s =
     (if usdcBal s from < amount \<or> usdcAllowance s from < amount \<or> usdcDenied s from
      then Inl TokenTransferFailed
      else
        let b1 = (usdcBal s)(from := usdcBal s from - amount);
            b2 = b1(thisAddress s := b1 (thisAddress s) + amount)
        in Inr (s\<lparr>usdcBal := b2,
                   usdcAllowance := (usdcAllowance s)(from := usdcAllowance s from - amount)\<rparr>))"

text \<open>
  \<^verbatim>\<open>(bool ok, ) = to.call{value: amount}("")\<close>: returns \<open>ok\<close> and the state; a failed
  send moves nothing.
\<close>

definition ethCall :: "address \<Rightarrow> nat \<Rightarrow> state \<Rightarrow> bool \<times> state" where
  "ethCall to amount s =
     (if ethBal s (thisAddress s) < amount \<or> ethRejects s to then (False, s)
      else
        let b1 = (ethBal s)(thisAddress s := ethBal s (thisAddress s) - amount);
            b2 = b1(to := b1 to + amount)
        in (True, s\<lparr>ethBal := b2\<rparr>))"

subsection \<open>Modifiers\<close>

definition onlyOwner :: "address \<Rightarrow> state \<Rightarrow> error + unit" where
  "onlyOwner sender s = (if sender \<noteq> contractOwner s then Inl OwnableUnauthorized else Inr ())"

definition onlyOracle :: "address \<Rightarrow> state \<Rightarrow> error + unit" where
  "onlyOracle sender s = (if sender \<noteq> oracleAddress s then Inl NotOracle else Inr ())"

definition whenNotPaused :: "state \<Rightarrow> error + unit" where
  "whenNotPaused s = (if paused s then Inl EnforcedPause else Inr ())"

definition roundOpen :: "nat \<Rightarrow> state \<Rightarrow> error + unit" where
  "roundOpen now s =
     (if round_id (currentRound s) = 0 then Inl NoActiveRound
      else if resolved (currentRound s) then Inl RoundAlreadyResolved
      else if startedAt (currentRound s) > 0 \<and> now \<ge> endTime (currentRound s)
        then Inl RoundNotActive
      else Inr ())"

subsection \<open>Constructor and administration\<close>

text \<open>
  The constructor: \<open>w\<close> is the world the contract is deployed into (its address and
  the two ledgers); the storage starts zeroed.
\<close>

definition constructor ::
  "address \<Rightarrow> state \<Rightarrow> address \<Rightarrow> address \<Rightarrow> nat \<Rightarrow> nat \<Rightarrow> nat \<Rightarrow> nat \<Rightarrow> error + state" where
  "constructor sender w usdc' oracle' minBid' roundDuration' rakeBps' splitBps' =
     (if rakeBps' > MAX_RAKE_BPS then Inl RakeTooHigh
      else if splitBps' > 10000 then Inl SplitTooHigh
      else Inr (w\<lparr>
        usdc := usdc', contractOwner := sender, paused := False,
        minBid := minBid', oracleAddress := oracle', roundDuration := roundDuration',
        rakeBps := rakeBps', splitBps := splitBps', maxSlotsPerPlayer := 6,
        accumulatedRake := 0, nextPrizePool := 0, pendingEth := 0,
        currentRound := \<lparr>round_id = 0, createdAt = 0, startedAt = 0, endTime = 0,
                          prizePool = 0, ethPrizePool = 0, resolved = False\<rparr>,
        slots := (\<lambda>_. emptySlot),
        cumulativeBids := (\<lambda>_ _ _. 0), totalSpent := (\<lambda>_ _. 0),
        playerSlotCount := (\<lambda>_ _. 0), roundPlayers := (\<lambda>_. []),
        isPlayer := (\<lambda>_ _. False), unclaimedEth := (\<lambda>_. 0)\<rparr>))"

definition setOracle :: "address \<Rightarrow> address \<Rightarrow> state \<Rightarrow> error + state" where
  "setOracle sender oracle' s =
     bindE (onlyOwner sender s) (\<lambda>_. Inr (s\<lparr>oracleAddress := oracle'\<rparr>))"

definition setMinBid :: "address \<Rightarrow> nat \<Rightarrow> state \<Rightarrow> error + state" where
  "setMinBid sender minBid' s =
     bindE (onlyOwner sender s) (\<lambda>_. Inr (s\<lparr>minBid := minBid'\<rparr>))"

definition setRoundDuration :: "address \<Rightarrow> nat \<Rightarrow> state \<Rightarrow> error + state" where
  "setRoundDuration sender duration s =
     bindE (onlyOwner sender s) (\<lambda>_. Inr (s\<lparr>roundDuration := duration\<rparr>))"

definition setRake :: "address \<Rightarrow> nat \<Rightarrow> state \<Rightarrow> error + state" where
  "setRake sender rakeBps' s =
     bindE (onlyOwner sender s) (\<lambda>_.
       if rakeBps' > MAX_RAKE_BPS then Inl RakeTooHigh
       else Inr (s\<lparr>rakeBps := rakeBps'\<rparr>))"

definition setSplit :: "address \<Rightarrow> nat \<Rightarrow> state \<Rightarrow> error + state" where
  "setSplit sender splitBps' s =
     bindE (onlyOwner sender s) (\<lambda>_.
       if splitBps' > 10000 then Inl SplitTooHigh
       else Inr (s\<lparr>splitBps := splitBps'\<rparr>))"

definition setMaxSlotsPerPlayer :: "address \<Rightarrow> nat \<Rightarrow> state \<Rightarrow> error + state" where
  "setMaxSlotsPerPlayer sender cap s =
     bindE (onlyOwner sender s) (\<lambda>_.
       if cap = 0 \<or> cap > NUM_SLOTS then Inl InvalidSlotCap
       else Inr (s\<lparr>maxSlotsPerPlayer := cap\<rparr>))"

definition withdrawRake :: "address \<Rightarrow> state \<Rightarrow> error + state" where
  "withdrawRake sender s =
     bindE (onlyOwner sender s) (\<lambda>_.
       let amount = accumulatedRake s
       in usdcSafeTransfer (contractOwner s) amount (s\<lparr>accumulatedRake := 0\<rparr>))"

definition pause :: "address \<Rightarrow> state \<Rightarrow> error + state" where
  "pause sender s =
     bindE (onlyOwner sender s) (\<lambda>_.
       if paused s then Inl EnforcedPause else Inr (s\<lparr>paused := True\<rparr>))"

definition unpause :: "address \<Rightarrow> state \<Rightarrow> error + state" where
  "unpause sender s =
     bindE (onlyOwner sender s) (\<lambda>_.
       if \<not> paused s then Inl ExpectedPause else Inr (s\<lparr>paused := False\<rparr>))"

subsection \<open>Round management\<close>

text \<open>The loop of \<^verbatim>\<open>_createRound\<close> that deletes \<^verbatim>\<open>slots[i]\<close> for every \<open>i < NUM_SLOTS\<close>.\<close>

definition clearSlots :: "(nat \<Rightarrow> WordSlot) \<Rightarrow> nat \<Rightarrow> WordSlot" where
  "clearSlots sl i = (if i < NUM_SLOTS then emptySlot else sl i)"

definition createRound :: "nat \<Rightarrow> nat \<Rightarrow> nat \<Rightarrow> state \<Rightarrow> error + state" where
  "createRound now usdcPrize ethPrize s =
     bindE (add256 (round_id (currentRound s)) 1) (\<lambda>newId.
       Inr (s\<lparr>slots := clearSlots (slots s),
              currentRound := \<lparr>round_id = newId, createdAt = now, startedAt = 0,
                                endTime = 0, prizePool = usdcPrize, ethPrizePool = ethPrize,
                                resolved = False\<rparr>\<rparr>))"

definition startRound :: "address \<Rightarrow> nat \<Rightarrow> nat \<Rightarrow> state \<Rightarrow> error + state" where
  "startRound sender now topUp s =
     bindE (whenNotPaused s) (\<lambda>_.
       if round_id (currentRound s) > 0 \<and> \<not> resolved (currentRound s)
       then Inl PreviousRoundNotResolved
       else
         bindE (if topUp > 0 then usdcSafeTransferFrom sender topUp s else Inr s) (\<lambda>s1.
         bindE (add256 (nextPrizePool s1) topUp) (\<lambda>prize.
           if prize = 0 then Inl EmptyPrizePool
           else
             bindE (createRound now prize (pendingEth s1) (s1\<lparr>nextPrizePool := 0\<rparr>)) (\<lambda>s2.
               Inr (s2\<lparr>pendingEth := 0\<rparr>)))))"

definition fund :: "address \<Rightarrow> nat \<Rightarrow> nat \<Rightarrow> state \<Rightarrow> error + state" where
  "fund sender now amount s =
     bindE (whenNotPaused s) (\<lambda>_.
       if round_id (currentRound s) = 0 \<or> resolved (currentRound s) then Inl NoActiveRound
       else if startedAt (currentRound s) > 0 \<and> now \<ge> endTime (currentRound s)
         then Inl RoundEnded
       else
         bindE (usdcSafeTransferFrom sender amount s) (\<lambda>s1.
         bindE (add256 (prizePool (currentRound s1)) amount) (\<lambda>p.
           Inr (s1\<lparr>currentRound := (currentRound s1)\<lparr>prizePool := p\<rparr>\<rparr>))))"

text \<open>
  \<^verbatim>\<open>receive()\<close>: the ether \<open>value\<close> attached to the call moves from the sender to the
  contract before the body runs; a sender without it cannot make the call.
\<close>

definition receive :: "address \<Rightarrow> nat \<Rightarrow> state \<Rightarrow> error + state" where
  "receive sender value s =
     (if ethBal s sender < value then Inl InsufficientFunds
      else
        let b1 = (ethBal s)(sender := ethBal s sender - value);
            b2 = b1(thisAddress s := b1 (thisAddress s) + value);
            s1 = s\<lparr>ethBal := b2\<rparr>
        in
          if round_id (currentRound s1) > 0 \<and> \<not> resolved (currentRound s1) then
            bindE (add256 (ethPrizePool (currentRound s1)) value) (\<lambda>e.
              Inr (s1\<lparr>currentRound := (currentRound s1)\<lparr>ethPrizePool := e\<rparr>\<rparr>))
          else
            bindE (add256 (pendingEth s1) value) (\<lambda>e. Inr (s1\<lparr>pendingEth := e\<rparr>)))"

subsection \<open>Bidding\<close>

text \<open>\<^verbatim>\<open>_validateWord\<close>: only the byte 0x20 is refused.\<close>

fun validateWord :: "string \<Rightarrow> error + unit" where
  "validateWord [] = Inr ()"
| "validateWord (c # cs) = (if c = CHR 0x20 then Inl WordContainsSpace else validateWord cs)"

text \<open>The body of \<^verbatim>\<open>bid\<close>, one definition for each of its commented sections.\<close>

definition startClock :: "nat \<Rightarrow> state \<Rightarrow> error + state" where
  "startClock now s =
     (if startedAt (currentRound s) = 0 then
        bindE (add256 now (roundDuration s)) (\<lambda>e.
          Inr (s\<lparr>currentRound := (currentRound s)\<lparr>startedAt := now, endTime := e\<rparr>\<rparr>))
      else Inr s)"

definition antiSnipe :: "nat \<Rightarrow> state \<Rightarrow> error + state" where
  "antiSnipe now s =
     bindE (sub256 (endTime (currentRound s)) now) (\<lambda>remaining.
       if remaining \<le> ANTI_SNIPE_WINDOW then
         bindE (add256 (endTime (currentRound s)) ANTI_SNIPE_EXTENSION) (\<lambda>e.
           Inr (s\<lparr>currentRound := (currentRound s)\<lparr>endTime := e\<rparr>\<rparr>))
       else Inr s)"

definition updateCumulative :: "address \<Rightarrow> nat \<Rightarrow> nat \<Rightarrow> state \<Rightarrow> error + state" where
  "updateCumulative sender slotIndex amount s =
     (let roundId = round_id (currentRound s) in
      bindE (add256 (cumulativeBids s roundId slotIndex sender) amount) (\<lambda>c.
      bindE (add256 (totalSpent s roundId sender) amount) (\<lambda>t.
        Inr (s\<lparr>cumulativeBids := (cumulativeBids s)(roundId :=
                     (cumulativeBids s roundId)(slotIndex :=
                       (cumulativeBids s roundId slotIndex)(sender := c))),
               totalSpent := (totalSpent s)(roundId := (totalSpent s roundId)(sender := t))\<rparr>))))"

definition bidSplit :: "nat \<Rightarrow> state \<Rightarrow> error + state" where
  "bidSplit amount s =
     bindE (mul256 amount (splitBps s)) (\<lambda>m.
       let toCurrentPot = m div 10000 in
       bindE (sub256 amount toCurrentPot) (\<lambda>toNextPot.
       bindE (add256 (prizePool (currentRound s)) toCurrentPot) (\<lambda>p.
       bindE (add256 (nextPrizePool s) toNextPot) (\<lambda>n.
         Inr (s\<lparr>currentRound := (currentRound s)\<lparr>prizePool := p\<rparr>, nextPrizePool := n\<rparr>)))))"

definition trackPlayer :: "address \<Rightarrow> state \<Rightarrow> state" where
  "trackPlayer sender s =
     (let roundId = round_id (currentRound s) in
      if \<not> isPlayer s roundId sender then
        s\<lparr>isPlayer := (isPlayer s)(roundId := (isPlayer s roundId)(sender := True)),
          roundPlayers := (roundPlayers s)(roundId := roundPlayers s roundId @ [sender])\<rparr>
      else s)"

definition slotCap :: "address \<Rightarrow> address \<Rightarrow> state \<Rightarrow> error + state" where
  "slotCap sender previousOwner s =
     (let roundId = round_id (currentRound s) in
      if previousOwner \<noteq> sender then
        if playerSlotCount s roundId sender \<ge> maxSlotsPerPlayer s then Inl SlotCapReached
        else
          bindE (add256 (playerSlotCount s roundId sender) 1) (\<lambda>c.
            let s1 = s\<lparr>playerSlotCount := (playerSlotCount s)(roundId :=
                          (playerSlotCount s roundId)(sender := c))\<rparr>
            in
              if previousOwner \<noteq> 0 then
                bindE (sub256 (playerSlotCount s1 roundId previousOwner) 1) (\<lambda>d.
                  Inr (s1\<lparr>playerSlotCount := (playerSlotCount s1)(roundId :=
                             (playerSlotCount s1 roundId)(previousOwner := d))\<rparr>))
              else Inr s1)
      else Inr s)"

definition updateSlot :: "address \<Rightarrow> nat \<Rightarrow> string \<Rightarrow> state \<Rightarrow> error + state" where
  "updateSlot sender slotIndex w s =
     (let roundId = round_id (currentRound s);
          newCumulative = cumulativeBids s roundId slotIndex sender
      in
        if newCumulative > highestTotal (slots s slotIndex) then
          bindE (slotCap sender (owner (slots s slotIndex)) s) (\<lambda>s1.
            Inr (s1\<lparr>slots := (slots s1)(slotIndex :=
                       \<lparr>word = w, owner = sender, highestTotal = newCumulative\<rparr>)\<rparr>))
        else Inr s)"

definition bid :: "address \<Rightarrow> nat \<Rightarrow> nat \<Rightarrow> string \<Rightarrow> nat \<Rightarrow> state \<Rightarrow> error + state" where
  "bid sender now slotIndex w amount s =
     bindE (roundOpen now s) (\<lambda>_.
     bindE (whenNotPaused s) (\<lambda>_.
       if slotIndex \<ge> NUM_SLOTS then Inl InvalidSlot
       else if amount < minBid s then Inl BidTooLow
       else if length w = 0 then Inl WordEmpty
       else if length w > MAX_WORD_LENGTH then Inl WordTooLong
       else
         bindE (validateWord w) (\<lambda>_.
         bindE (startClock now s) (\<lambda>s1.
         bindE (antiSnipe now s1) (\<lambda>s2.
         bindE (updateCumulative sender slotIndex amount s2) (\<lambda>s3.
         bindE (bidSplit amount s3) (\<lambda>s4.
         bindE (updateSlot sender slotIndex w (trackPlayer sender s4)) (\<lambda>s5.
           usdcSafeTransferFrom sender amount s5))))))))"

subsection \<open>Resolution\<close>

definition validateResolution :: "nat \<Rightarrow> state \<Rightarrow> error + unit" where
  "validateResolution now s =
     (if round_id (currentRound s) = 0 then Inl NoActiveRound
      else if resolved (currentRound s) then Inl RoundAlreadyResolved
      else if startedAt (currentRound s) = 0 then Inl RoundNotStarted
      else if now < endTime (currentRound s) then Inl RoundStillActive
      else Inr ())"

definition autoAdvance :: "nat \<Rightarrow> state \<Rightarrow> error + state" where
  "autoAdvance now s =
     (if nextPrizePool s \<ge> MIN_AUTO_START then
        let prize = nextPrizePool s in
        bindE (createRound now prize (pendingEth s) (s\<lparr>nextPrizePool := 0\<rparr>)) (\<lambda>s1.
          Inr (s1\<lparr>pendingEth := 0\<rparr>))
      else Inr s)"

definition setResolved :: "state \<Rightarrow> state" where
  "setResolved s = s\<lparr>currentRound := (currentRound s)\<lparr>resolved := True\<rparr>\<rparr>"

text \<open>The loops \<^verbatim>\<open>for (i...) total += amounts[i]\<close>, with the checked addition.\<close>

fun sumLoop :: "nat list \<Rightarrow> nat \<Rightarrow> error + nat" where
  "sumLoop [] tot = Inr tot"
| "sumLoop (x # xs) tot = bindE (add256 tot x) (sumLoop xs)"

text \<open>The transfer loop of \<^verbatim>\<open>resolveRound\<close> for USDC, over the pairs \<open>(winners[i], usdcAmounts[i])\<close>.\<close>

fun payUsdc :: "(address \<times> nat) list \<Rightarrow> state \<Rightarrow> error + state" where
  "payUsdc [] s = Inr s"
| "payUsdc ((w, a) # rest) s =
     bindE (if a > 0 then usdcSafeTransfer w a s else Inr s) (payUsdc rest)"

text \<open>One ether payout with the pull-pattern fallback: a failed send is parked in \<^verbatim>\<open>unclaimedEth\<close>.\<close>

definition ethPayout :: "address \<Rightarrow> nat \<Rightarrow> state \<Rightarrow> error + state" where
  "ethPayout w a s =
     (case ethCall w a s of (ok, s1) \<Rightarrow>
        if \<not> ok then
          bindE (add256 (unclaimedEth s1 w) a) (\<lambda>u.
            Inr (s1\<lparr>unclaimedEth := (unclaimedEth s1)(w := u)\<rparr>))
        else Inr s1)"

fun payEth :: "(address \<times> nat) list \<Rightarrow> state \<Rightarrow> error + state" where
  "payEth [] s = Inr s"
| "payEth ((w, a) # rest) s =
     bindE (if a > 0 then ethPayout w a s else Inr s) (payEth rest)"

definition resolveRound ::
  "address \<Rightarrow> nat \<Rightarrow> address list \<Rightarrow> nat list \<Rightarrow> nat list \<Rightarrow> state \<Rightarrow> error + state" where
  "resolveRound sender now winners usdcAmounts ethAmounts s =
     bindE (onlyOracle sender s) (\<lambda>_.
     bindE (validateResolution now s) (\<lambda>_.
       let roundId = round_id (currentRound s) in
       if length (roundPlayers s roundId) < 2 then Inl NeedMorePlayers
       else
         bindE (mul256 (prizePool (currentRound s)) (rakeBps s)) (\<lambda>m.
         let rake = m div 10000 in
         bindE (sub256 (prizePool (currentRound s)) rake) (\<lambda>distributable.
         bindE (add256 (accumulatedRake s) rake) (\<lambda>ar.
         let s1 = s\<lparr>accumulatedRake := ar\<rparr> in
         if length winners \<noteq> length usdcAmounts then Inl AllocationMismatch
         else
           bindE (sumLoop usdcAmounts 0) (\<lambda>usdcTotal.
           if usdcTotal \<noteq> distributable then Inl AllocationMismatch
           else
             bindE (payUsdc (zip winners usdcAmounts) s1) (\<lambda>s2.
             bindE
               (if ethPrizePool (currentRound s2) > 0 then
                  if length ethAmounts \<noteq> length winners then Inl AllocationMismatch
                  else
                    bindE (sumLoop ethAmounts 0) (\<lambda>ethTotal.
                      if ethTotal \<noteq> ethPrizePool (currentRound s2) then Inl AllocationMismatch
                      else payEth (zip winners ethAmounts) s2)
                else Inr s2) (\<lambda>s3.
             autoAdvance now (setResolved s3)))))))))"

definition refundSoloRound :: "address \<Rightarrow> nat \<Rightarrow> state \<Rightarrow> error + state" where
  "refundSoloRound sender now s =
     bindE (validateResolution now s) (\<lambda>_.
       let roundId = round_id (currentRound s) in
       if length (roundPlayers s roundId) \<ge> 2 then Inl HasMultiplePlayers
       else
         bindE
           (if length (roundPlayers s roundId) = 1 then
              let player = roundPlayers s roundId ! 0;
                  spent = totalSpent s roundId player
              in
                bindE (add256 (nextPrizePool s) (prizePool (currentRound s))) (\<lambda>n.
                bindE (sub256 n spent) (\<lambda>n'.
                bindE (add256 (pendingEth s) (ethPrizePool (currentRound s))) (\<lambda>e.
                  let s1 = s\<lparr>nextPrizePool := n', pendingEth := e\<rparr> in
                  if spent > 0 then usdcSafeTransfer player spent s1 else Inr s1)))
            else
              bindE (add256 (nextPrizePool s) (prizePool (currentRound s))) (\<lambda>n.
              bindE (add256 (pendingEth s) (ethPrizePool (currentRound s))) (\<lambda>e.
                Inr (s\<lparr>nextPrizePool := n, pendingEth := e\<rparr>)))) (\<lambda>s2.
         autoAdvance now (setResolved s2)))"

definition emergencySoloRefund :: "nat \<Rightarrow> nat \<Rightarrow> address list \<Rightarrow> state \<Rightarrow> error + state" where
  "emergencySoloRefund now roundId players s =
     bindE
       (if length players = 1 then
          let player = players ! 0;
              spent = totalSpent s roundId player
          in
            bindE (add256 (nextPrizePool s) (prizePool (currentRound s))) (\<lambda>n.
            bindE (sub256 n spent) (\<lambda>n'.
            bindE (add256 (pendingEth s) (ethPrizePool (currentRound s))) (\<lambda>e.
              let s1 = s\<lparr>nextPrizePool := n', pendingEth := e\<rparr> in
              if spent > 0 then usdcSafeTransfer player spent s1 else Inr s1)))
        else
          bindE (add256 (nextPrizePool s) (prizePool (currentRound s))) (\<lambda>n.
          bindE (add256 (pendingEth s) (ethPrizePool (currentRound s))) (\<lambda>e.
            Inr (s\<lparr>nextPrizePool := n, pendingEth := e\<rparr>)))) (\<lambda>s2.
     autoAdvance now (setResolved s2))"

text \<open>
  The allocation loop of \<^verbatim>\<open>emergencyResolve\<close> over the players' total spends: it returns
  \<^verbatim>\<open>usdcAllocs\<close>, \<^verbatim>\<open>ethAllocs\<close>, \<^verbatim>\<open>usdcDistributed\<close> and \<^verbatim>\<open>ethDistributed\<close>. An entry stays
  0, as allocated, when \<^verbatim>\<open>totalBids\<close> is 0.
\<close>

fun allocLoop ::
  "nat \<Rightarrow> nat \<Rightarrow> nat \<Rightarrow> nat list \<Rightarrow> nat \<Rightarrow> nat \<Rightarrow> error + (nat list \<times> nat list \<times> nat \<times> nat)" where
  "allocLoop distributable ethPool totalBids [] ud ed = Inr ([], [], ud, ed)"
| "allocLoop distributable ethPool totalBids (sp # sps) ud ed =
     bindE (if totalBids > 0
            then bindE (mul256 distributable sp) (\<lambda>m. Inr (m div totalBids)) else Inr 0) (\<lambda>u.
     bindE (if totalBids > 0
            then bindE (mul256 ethPool sp) (\<lambda>m. Inr (m div totalBids)) else Inr 0) (\<lambda>e.
     bindE (add256 ud u) (\<lambda>ud'.
     bindE (add256 ed e) (\<lambda>ed'.
     bindE (allocLoop distributable ethPool totalBids sps ud' ed') (\<lambda>(us, es, udf, edf).
       Inr (u # us, e # es, udf, edf))))))"

text \<open>Rounding dust to the last player.\<close>

definition addDust :: "nat list \<Rightarrow> nat \<Rightarrow> nat \<Rightarrow> error + nat list" where
  "addDust allocs distributed pool =
     (if distributed < pool \<and> length allocs > 0 then
        bindE (sub256 pool distributed) (\<lambda>d.
        bindE (add256 (allocs ! (length allocs - 1)) d) (\<lambda>v.
          Inr (allocs[length allocs - 1 := v])))
      else Inr allocs)"

text \<open>The transfer loop of \<^verbatim>\<open>emergencyResolve\<close>, over \<open>(winners[i], usdcAllocs[i], ethAllocs[i])\<close>.\<close>

fun payBoth :: "(address \<times> nat \<times> nat) list \<Rightarrow> state \<Rightarrow> error + state" where
  "payBoth [] s = Inr s"
| "payBoth ((w, u, e) # rest) s =
     bindE (if u > 0 then usdcSafeTransfer w u s else Inr s) (\<lambda>s1.
     bindE (if e > 0 then ethPayout w e s1 else Inr s1) (payBoth rest))"

definition emergencyResolve :: "address \<Rightarrow> nat \<Rightarrow> state \<Rightarrow> error + state" where
  "emergencyResolve sender now s =
     bindE (onlyOwner sender s) (\<lambda>_.
     bindE (validateResolution now s) (\<lambda>_.
     bindE (add256 (endTime (currentRound s)) EMERGENCY_TIMEOUT) (\<lambda>ready.
       if now < ready then Inl EmergencyNotReady
       else
         let roundId = round_id (currentRound s);
             players = roundPlayers s roundId
         in
           if length players < 2 then emergencySoloRefund now roundId players s
           else
             bindE (sumLoop (map (totalSpent s roundId) players) 0) (\<lambda>totalBids.
             bindE (mul256 (prizePool (currentRound s)) (rakeBps s)) (\<lambda>m.
             let rake = m div 10000 in
             bindE (sub256 (prizePool (currentRound s)) rake) (\<lambda>distributable.
             bindE (add256 (accumulatedRake s) rake) (\<lambda>ar.
             let s1 = s\<lparr>accumulatedRake := ar\<rparr> in
             bindE (allocLoop distributable (ethPrizePool (currentRound s1)) totalBids
                      (map (totalSpent s1 roundId) players) 0 0)
               (\<lambda>(usdcAllocs0, ethAllocs0, usdcDistributed, ethDistributed).
             bindE (addDust usdcAllocs0 usdcDistributed distributable) (\<lambda>usdcAllocs.
             bindE (addDust ethAllocs0 ethDistributed (ethPrizePool (currentRound s1)))
               (\<lambda>ethAllocs.
             bindE (payBoth (zip players (zip usdcAllocs ethAllocs)) s1) (\<lambda>s2.
             autoAdvance now (setResolved s2))))))))))))"

definition claimEth :: "address \<Rightarrow> state \<Rightarrow> error + state" where
  "claimEth sender s =
     (let amount = unclaimedEth s sender in
      if amount = 0 then Inl NothingToClaim
      else
        case ethCall sender amount (s\<lparr>unclaimedEth := (unclaimedEth s)(sender := 0)\<rparr>) of
          (ok, s1) \<Rightarrow> if ok then Inr s1 else Inl RequireFailed)"

subsection \<open>Rescue\<close>

text \<open>
  \<^verbatim>\<open>rescueToken\<close> moves a token other than USDC; no such ledger is part of the state.
\<close>

definition rescueToken :: "address \<Rightarrow> address \<Rightarrow> state \<Rightarrow> error + state" where
  "rescueToken sender token s =
     bindE (onlyOwner sender s) (\<lambda>_.
       if token = usdc s then Inl RequireFailed else Inr s)"

definition rescueEth :: "address \<Rightarrow> state \<Rightarrow> error + state" where
  "rescueEth sender s =
     bindE (onlyOwner sender s) (\<lambda>_.
     bindE (add256 (ethPrizePool (currentRound s)) (pendingEth s)) (\<lambda>committed.
     bindE (sub256 (ethBal s (thisAddress s)) committed) (\<lambda>rescuable.
       if \<not> rescuable > 0 then Inl RequireFailed
       else
         case ethCall (contractOwner s) rescuable s of
           (ok, s1) \<Rightarrow> if ok then Inr s1 else Inl RequireFailed)))"

subsection \<open>Transactions\<close>

datatype call =
    SetOracle address | SetMinBid nat | SetRoundDuration nat | SetRake nat | SetSplit nat
  | SetMaxSlotsPerPlayer nat | WithdrawRake | Pause | Unpause
  | StartRound nat | Fund nat | Receive nat | Bid nat string nat
  | ResolveRound "address list" "nat list" "nat list" | RefundSoloRound | EmergencyResolve
  | ClaimEth | RescueToken address | RescueEth

fun exec :: "address \<Rightarrow> nat \<Rightarrow> call \<Rightarrow> state \<Rightarrow> error + state" where
  "exec sender now (SetOracle a) s = setOracle sender a s"
| "exec sender now (SetMinBid n) s = setMinBid sender n s"
| "exec sender now (SetRoundDuration n) s = setRoundDuration sender n s"
| "exec sender now (SetRake n) s = setRake sender n s"
| "exec sender now (SetSplit n) s = setSplit sender n s"
| "exec sender now (SetMaxSlotsPerPlayer n) s = setMaxSlotsPerPlayer sender n s"
| "exec sender now WithdrawRake s = withdrawRake sender s"
| "exec sender now Pause s = pause sender s"
| "exec sender now Unpause s = unpause sender s"
| "exec sender now (StartRound topUp) s = startRound sender now topUp s"
| "exec sender now (Fund amount) s = fund sender now amount s"
| "exec sender now (Receive v) s = receive sender v s"
| "exec sender now (Bid slotIndex w amount) s = bid sender now slotIndex w amount s"
| "exec sender now (ResolveRound winners usdcAmounts ethAmounts) s =
     resolveRound sender now winners usdcAmounts ethAmounts s"
| "exec sender now RefundSoloRound s = refundSoloRound sender now s"
| "exec sender now EmergencyResolve s = emergencyResolve sender now s"
| "exec sender now ClaimEth s = claimEth sender s"
| "exec sender now (RescueToken token) s = rescueToken sender token s"
| "exec sender now RescueEth s = rescueEth sender s"

text \<open>A transaction either commits its new state or reverts to the one it started from.\<close>

definition apply_tx :: "state \<Rightarrow> address \<times> nat \<times> call \<Rightarrow> state" where
  "apply_tx s tx =
     (case tx of (sender, now, c) \<Rightarrow>
        (case exec sender now c s of Inl e \<Rightarrow> s | Inr s' \<Rightarrow> s'))"

definition run :: "(address \<times> nat \<times> call) list \<Rightarrow> state \<Rightarrow> state" where
  "run txs s = foldl apply_tx s txs"

subsection \<open>Auxiliary definitions for the statements\<close>

text \<open>The slot counters of a round after \<open>sender\<close> takes a slot from \<open>prev\<close>.\<close>

definition countsAfter :: "address \<Rightarrow> address \<Rightarrow> (address \<Rightarrow> nat) \<Rightarrow> address \<Rightarrow> nat" where
  "countsAfter sender prev cnt =
     (if prev \<noteq> sender then
        (if prev \<noteq> 0 then (cnt(sender := cnt sender + 1))(prev := cnt prev - 1)
         else cnt(sender := cnt sender + 1))
      else cnt)"

text \<open>The end time after the clock-start and the anti-snipe sections of \<^verbatim>\<open>bid\<close>.\<close>

definition clockStart :: "nat \<Rightarrow> state \<Rightarrow> nat" where
  "clockStart now s =
     (if startedAt (currentRound s) = 0 then now + roundDuration s else endTime (currentRound s))"

definition bidEndTime :: "nat \<Rightarrow> state \<Rightarrow> nat" where
  "bidEndTime now s =
     (if clockStart now s - now \<le> 60 then clockStart now s + 60 else clockStart now s)"

definition bidCumulative :: "address \<Rightarrow> nat \<Rightarrow> nat \<Rightarrow> state \<Rightarrow> nat" where
  "bidCumulative sender i a s = cumulativeBids s (round_id (currentRound s)) i sender + a"

definition onlyFunds :: "state \<Rightarrow> state \<Rightarrow> bool" where
  "onlyFunds s s' \<longleftrightarrow>
     (\<exists>ar n pe b e u. s' = s\<lparr>accumulatedRake := ar, nextPrizePool := n, pendingEth := pe,
                              usdcBal := b, ethBal := e, unclaimedEth := u\<rparr>)"

definition soloCarry :: "nat \<Rightarrow> address list \<Rightarrow> state \<Rightarrow> error + state" where
  "soloCarry roundId players s =
     (if length players = 1 then
        bindE (add256 (nextPrizePool s) (prizePool (currentRound s))) (\<lambda>n.
        bindE (sub256 n (totalSpent s roundId (players ! 0))) (\<lambda>n'.
        bindE (add256 (pendingEth s) (ethPrizePool (currentRound s))) (\<lambda>e.
          if totalSpent s roundId (players ! 0) > 0
          then usdcSafeTransfer (players ! 0) (totalSpent s roundId (players ! 0))
                 (s\<lparr>nextPrizePool := n', pendingEth := e\<rparr>)
          else Inr (s\<lparr>nextPrizePool := n', pendingEth := e\<rparr>))))
      else
        bindE (add256 (nextPrizePool s) (prizePool (currentRound s))) (\<lambda>n.
        bindE (add256 (pendingEth s) (ethPrizePool (currentRound s))) (\<lambda>e.
          Inr (s\<lparr>nextPrizePool := n, pendingEth := e\<rparr>))))"

fun isResolution :: "call \<Rightarrow> bool" where
  "isResolution (ResolveRound ws us es) = True"
| "isResolution RefundSoloRound = True"
| "isResolution EmergencyResolve = True"
| "isResolution _ = False"

fun isBid :: "call \<Rightarrow> bool" where
  "isBid (Bid i w a) = True"
| "isBid _ = False"

text \<open>The caller passes the access modifier of a resolution path.\<close>

fun authorized :: "address \<Rightarrow> call \<Rightarrow> state \<Rightarrow> bool" where
  "authorized sender (ResolveRound ws us es) s = (sender = oracleAddress s)"
| "authorized sender EmergencyResolve s = (sender = contractOwner s)"
| "authorized sender _ s = True"

text \<open>
  The number of resolution calls that succeed on round \<open>r\<close> while the transactions
  \<open>txs\<close> run from \<open>s\<close>.
\<close>

fun resolutions :: "nat \<Rightarrow> (address \<times> nat \<times> call) list \<Rightarrow> state \<Rightarrow> nat" where
  "resolutions r [] s = 0"
| "resolutions r ((sender, now, c) # txs) s =
     (if isResolution c \<and> round_id (currentRound s) = r \<and> \<not> isl (exec sender now c s)
      then 1 else 0) + resolutions r txs (apply_tx s (sender, now, c))"

definition settled :: "nat \<Rightarrow> state \<Rightarrow> bool" where
  "settled r s \<longleftrightarrow>
     r < round_id (currentRound s) \<or> (round_id (currentRound s) = r \<and> resolved (currentRound s))"

text \<open>
  The local variables \<^verbatim>\<open>rake\<close> and \<^verbatim>\<open>distributable\<close> of \<^verbatim>\<open>resolveRound\<close> and
  \<^verbatim>\<open>emergencyResolve\<close>, when the checked operations that compute them pass.
\<close>

definition rakeOf :: "state \<Rightarrow> nat" where
  "rakeOf s = prizePool (currentRound s) * rakeBps s div 10000"

definition distributableOf :: "state \<Rightarrow> nat" where
  "distributableOf s = prizePool (currentRound s) - rakeOf s"

text \<open>The rake of the current round can be computed and added to the counter.\<close>

definition rakeFits :: "state \<Rightarrow> bool" where
  "rakeFits s \<longleftrightarrow>
     prizePool (currentRound s) \<le> MAX_UINT256 \<and>
     prizePool (currentRound s) * rakeBps s \<le> MAX_UINT256 \<and>
     rakeOf s \<le> prizePool (currentRound s) \<and>
     accumulatedRake s + rakeOf s \<le> MAX_UINT256"

text \<open>The total amount the payment list \<open>xs\<close> assigns to the recipient \<open>w\<close>.\<close>

definition credited :: "address \<Rightarrow> (address \<times> nat) list \<Rightarrow> nat" where
  "credited w xs = sum_list (map (\<lambda>x. if fst x = w then snd x else 0) xs)"

text \<open>The USDC and the ether payments of the transfer loop of \<^verbatim>\<open>emergencyResolve\<close>.\<close>

definition usdcPart :: "(address \<times> nat \<times> nat) list \<Rightarrow> (address \<times> nat) list" where
  "usdcPart xs = map (\<lambda>(w, u, e). (w, u)) xs"

definition ethPart :: "(address \<times> nat \<times> nat) list \<Rightarrow> (address \<times> nat) list" where
  "ethPart xs = map (\<lambda>(w, u, e). (w, e)) xs"

text \<open>What the payment list \<open>xs\<close> takes out of the account \<open>t\<close> that pays it.\<close>

definition outflow :: "address \<Rightarrow> (address \<times> nat) list \<Rightarrow> nat" where
  "outflow t xs = sum_list (map (\<lambda>x. if fst x = t then 0 else snd x) xs)"

text \<open>
  Following the spec's words, for comparison with the loops of \<^verbatim>\<open>emergencyResolve\<close>: each
  participant's share is \<open>floor (pool * spend / totalSpend)\<close>, and the rounding remainder
  goes to the last participant. (\<open>n div 0 = 0\<close> in HOL: with a total spend of 0 every
  floor is 0, as the allocations the code leaves untouched.)
\<close>

definition floors :: "nat \<Rightarrow> nat list \<Rightarrow> nat list" where
  "floors pool spends = map (\<lambda>sp. pool * sp div sum_list spends) spends"

definition shares :: "nat \<Rightarrow> nat list \<Rightarrow> nat list" where
  "shares pool spends =
     (floors pool spends)[length spends - 1 :=
        last (floors pool spends) + (pool - sum_list (floors pool spends))]"

text \<open>The total spends of the current round's players, in registration order.\<close>

definition spends :: "state \<Rightarrow> nat list" where
  "spends s =
     map (totalSpent s (round_id (currentRound s))) (roundPlayers s (round_id (currentRound s)))"

text \<open>The players of the current round, in registration order.\<close>

definition currentPlayers :: "state \<Rightarrow> address list" where
  "currentPlayers s = roundPlayers s (round_id (currentRound s))"

text \<open>
  The checked arithmetic of \<^verbatim>\<open>emergencyResolve\<close> passes: the total spend, the rake and the
  products of the allocation loop fit a \<^verbatim>\<open>uint256\<close>.
\<close>

definition emergencyFits :: "state \<Rightarrow> bool" where
  "emergencyFits s \<longleftrightarrow>
     rakeFits s \<and> sum_list (spends s) \<le> MAX_UINT256 \<and>
     ethPrizePool (currentRound s) \<le> MAX_UINT256 \<and>
     endTime (currentRound s) + EMERGENCY_TIMEOUT \<le> MAX_UINT256 \<and>
     round_id (currentRound s) + 1 \<le> MAX_UINT256 \<and>
     list_all (\<lambda>sp. distributableOf s * sp \<le> MAX_UINT256 \<and>
                     ethPrizePool (currentRound s) * sp \<le> MAX_UINT256) (spends s)"

text \<open>
  The ether side of a resolution from \<open>s\<close> to \<open>s'\<close> that distributes the payments \<open>pay\<close>:
  the round is resolved (or already replaced by the next one), every recipient is credited
  its payments, in its balance or in \<open>unclaimedEth\<close>; a recipient that rejects ether has
  them all in \<open>unclaimedEth\<close>, and, when the contract holds the ether it distributes, a
  recipient that accepts ether has them all in its balance.
\<close>

definition ethSettled :: "state \<Rightarrow> state \<Rightarrow> (address \<times> nat) list \<Rightarrow> bool" where
  "ethSettled s s' pay \<longleftrightarrow>
     (resolved (currentRound s') \<or>
      round_id (currentRound s') = round_id (currentRound s) + 1) \<and>
     (\<forall>v. v \<noteq> thisAddress s \<longrightarrow>
        ethBal s' v + unclaimedEth s' v = ethBal s v + unclaimedEth s v + credited v pay) \<and>
     (\<forall>v. ethRejects s v \<longrightarrow> v \<noteq> thisAddress s \<longrightarrow>
        ethBal s' v = ethBal s v \<and> unclaimedEth s' v = unclaimedEth s v + credited v pay) \<and>
     (sum_list (map snd pay) \<le> ethBal s (thisAddress s) \<longrightarrow>
        (\<forall>v. \<not> ethRejects s v \<longrightarrow> v \<noteq> thisAddress s \<longrightarrow>
           unclaimedEth s' v = unclaimedEth s v \<and> ethBal s' v = ethBal s v + credited v pay))"

subsection \<open>A concrete scenario\<close>

text \<open>
  A world with the contract at address 100, a token that refuses the zero address, and an
  account (9) that rejects ether. The contract is deployed by 1 with oracle 2, minimum bid 1,
  a round of 3600 seconds, a 5 percent rake and an even split.
\<close>

definition world0 :: state where
  "world0 = \<lparr>thisAddress = 100, usdc = 200, contractOwner = 0, paused = False, minBid = 0,
     oracleAddress = 0, roundDuration = 0, rakeBps = 0, splitBps = 0, maxSlotsPerPlayer = 0,
     accumulatedRake = 0, nextPrizePool = 0, pendingEth = 0,
     currentRound = \<lparr>round_id = 0, createdAt = 0, startedAt = 0, endTime = 0, prizePool = 0,
                      ethPrizePool = 0, resolved = False\<rparr>,
     slots = (\<lambda>_. emptySlot), cumulativeBids = (\<lambda>_ _ _. 0), totalSpent = (\<lambda>_ _. 0),
     playerSlotCount = (\<lambda>_ _. 0), roundPlayers = (\<lambda>_. []), isPlayer = (\<lambda>_ _. False),
     unclaimedEth = (\<lambda>_. 0),
     usdcBal = (\<lambda>a. if a = 100 then 0 else 1000000000),
     usdcAllowance = (\<lambda>_. 1000000000),
     usdcDenied = (\<lambda>a. a = 0),
     ethBal = (\<lambda>a. if a = 100 then 0 else 1000000000),
     ethRejects = (\<lambda>a. a = 9)\<rparr>"

definition deployed :: state where
  "deployed = (case constructor 1 world0 200 2 1 3600 500 5000 of Inr s \<Rightarrow> s | Inl e \<Rightarrow> world0)"

definition demoTxs :: "(address \<times> nat \<times> call) list" where
  "demoTxs = [(1, 1000, StartRound 100), (3, 2000, Bid 0 ''alpha'' 10), (4, 2100, Bid 0 ''beta'' 20)]"

text \<open>
  Round 1 with a seed of 100; player 3 bids 10 on slot 0, then player 4 bids 20 on it.
\<close>

definition demoBids :: "(address \<times> nat \<times> call) list" where
  "demoBids = [(3, 2000, Bid 0 ''alpha'' 10), (4, 2100, Bid 0 ''beta'' 20)]"

definition demoStarted :: state where
  "demoStarted = run [(1, 1000, StartRound 100)] deployed"

definition demoTwo :: state where
  "demoTwo = run demoBids demoStarted"

text \<open>Round 1 with player 3 alone.\<close>

definition demoOne :: state where
  "demoOne = run [(3, 2000, Bid 0 ''alpha'' 10)] demoStarted"

text \<open>The oracle's allocation of round 1 after its end: 110 of the 115 are distributable.\<close>

definition demoResolve :: "address \<times> nat \<times> call" where
  "demoResolve = (2, 6000, ResolveRound [3, 4] [60, 50] [])"

text \<open>Round 1 with two players and 1000 wei sent to the contract by 5.\<close>

definition demoTwoEth :: state where
  "demoTwoEth = apply_tx demoTwo (5, 3000, Receive 1000)"

text \<open>
  The oracle's allocation of round 1 with ether: account 9, which rejects ether, is to
  receive 60 USDC and 600 wei, player 4 is to receive 50 USDC and 400 wei.
\<close>

definition demoResolveEth :: "address \<times> nat \<times> call" where
  "demoResolveEth = (2, 6000, ResolveRound [9, 4] [60, 50] [600, 400])"

section \<open>Basic lemmas\<close>

lemma bindE_Inl [simp]: "bindE (Inl e) f = Inl e"
  by (simp add: bindE_def)

lemma bindE_Inr [simp]: "bindE (Inr x) f = f x"
  by (simp add: bindE_def)

lemma bindE_eq_Inr: "bindE m f = Inr y \<longleftrightarrow> (\<exists>x. m = Inr x \<and> f x = Inr y)"
  by (cases m) simp_all

lemma add256_Inr: "add256 a b = Inr c \<longleftrightarrow> (a + b \<le> MAX_UINT256 \<and> c = a + b)"
  by (auto simp: add256_def)

lemma sub256_Inr: "sub256 a b = Inr c \<longleftrightarrow> (b \<le> a \<and> c = a - b)"
  by (auto simp: sub256_def)

lemma mul256_Inr: "mul256 a b = Inr c \<longleftrightarrow> (a * b \<le> MAX_UINT256 \<and> c = a * b)"
  by (auto simp: mul256_def)

lemma startClock_Inr:
  "startClock now s = Inr s1 \<Longrightarrow>
     s1 = s\<lparr>currentRound := (currentRound s)\<lparr>
            startedAt := (if startedAt (currentRound s) = 0 then now else startedAt (currentRound s)),
            endTime := (if startedAt (currentRound s) = 0 then now + roundDuration s
                        else endTime (currentRound s))\<rparr>\<rparr>"
  by (auto simp: startClock_def bindE_eq_Inr add256_Inr split: if_splits)

lemma antiSnipe_Inr:
  "antiSnipe now s = Inr s1 \<Longrightarrow>
     now \<le> endTime (currentRound s) \<and>
     s1 = s\<lparr>currentRound := (currentRound s)\<lparr>
            endTime := (if endTime (currentRound s) - now \<le> 60 then endTime (currentRound s) + 60
                        else endTime (currentRound s))\<rparr>\<rparr>"
  by (auto simp: antiSnipe_def bindE_eq_Inr add256_Inr sub256_Inr ANTI_SNIPE_WINDOW_def
      ANTI_SNIPE_EXTENSION_def split: if_splits)

lemma updateCumulative_Inr:
  "updateCumulative sender i a s = Inr s1 \<Longrightarrow>
     s1 = s\<lparr>cumulativeBids := (cumulativeBids s)(round_id (currentRound s) :=
                     (cumulativeBids s (round_id (currentRound s)))(i :=
                       (cumulativeBids s (round_id (currentRound s)) i)(sender :=
                          cumulativeBids s (round_id (currentRound s)) i sender + a))),
               totalSpent := (totalSpent s)(round_id (currentRound s) :=
                   (totalSpent s (round_id (currentRound s)))(sender :=
                       totalSpent s (round_id (currentRound s)) sender + a))\<rparr>"
  by (auto simp: updateCumulative_def Let_def bindE_eq_Inr add256_Inr split: if_splits)

lemma bidSplit_Inr:
  "bidSplit a s = Inr s1 \<Longrightarrow>
     a * splitBps s div 10000 \<le> a \<and>
     s1 = s\<lparr>currentRound := (currentRound s)\<lparr>prizePool :=
                 prizePool (currentRound s) + a * splitBps s div 10000\<rparr>,
            nextPrizePool := nextPrizePool s + (a - a * splitBps s div 10000)\<rparr>"
  by (auto simp: bidSplit_def Let_def bindE_eq_Inr add256_Inr sub256_Inr mul256_Inr split: if_splits)

lemma bid_Inr:
  assumes "bid sender now i w a s = Inr s'"
  shows "\<exists>s1 s2 s3 s4 s5.
     roundOpen now s = Inr () \<and> \<not> paused s \<and> i < NUM_SLOTS \<and> minBid s \<le> a \<and>
     startClock now s = Inr s1 \<and> antiSnipe now s1 = Inr s2 \<and>
     updateCumulative sender i a s2 = Inr s3 \<and> bidSplit a s3 = Inr s4 \<and>
     updateSlot sender i w (trackPlayer sender s4) = Inr s5 \<and>
     usdcSafeTransferFrom sender a s5 = Inr s'"
  using assms
  by (auto simp: bid_def bindE_eq_Inr whenNotPaused_def split: if_splits)



lemma slotCap_Inr:
  "slotCap sender prev s = Inr s1 \<Longrightarrow>
     (prev \<noteq> sender \<longrightarrow> playerSlotCount s (round_id (currentRound s)) sender < maxSlotsPerPlayer s) \<and>
     s1 = s\<lparr>playerSlotCount := (playerSlotCount s)(round_id (currentRound s) :=
             countsAfter sender prev (playerSlotCount s (round_id (currentRound s))))\<rparr>"
  by (auto simp: slotCap_def countsAfter_def Let_def bindE_eq_Inr add256_Inr sub256_Inr split: if_splits)

lemma updateSlot_Inr:
  assumes "updateSlot sender i w s = Inr s1"
  defines "c \<equiv> cumulativeBids s (round_id (currentRound s)) i sender"
  shows "s1 = s\<lparr>playerSlotCount :=
                 (if c > highestTotal (slots s i)
                  then (playerSlotCount s)(round_id (currentRound s) :=
                     countsAfter sender (owner (slots s i)) (playerSlotCount s (round_id (currentRound s))))
                  else playerSlotCount s),
               slots :=
                 (if c > highestTotal (slots s i)
                  then (slots s)(i := \<lparr>word = w, owner = sender, highestTotal = c\<rparr>)
                  else slots s)\<rparr>"
    and "c > highestTotal (slots s i) \<Longrightarrow> owner (slots s i) \<noteq> sender \<Longrightarrow>
           playerSlotCount s (round_id (currentRound s)) sender < maxSlotsPerPlayer s"
  using assms
  by (auto simp: updateSlot_def Let_def bindE_eq_Inr split: if_splits dest!: slotCap_Inr)

lemma trackPlayer_eq:
  "trackPlayer sender s =
     s\<lparr>isPlayer := (isPlayer s)(round_id (currentRound s) :=
                      (isPlayer s (round_id (currentRound s)))(sender := True)),
       roundPlayers := (if isPlayer s (round_id (currentRound s)) sender then roundPlayers s
                        else (roundPlayers s)(round_id (currentRound s) :=
                               roundPlayers s (round_id (currentRound s)) @ [sender]))\<rparr>"
  by (auto simp: trackPlayer_def Let_def fun_upd_idem)

lemma usdcSafeTransferFrom_Inr:
  "usdcSafeTransferFrom from a s = Inr s1 \<Longrightarrow>
     s1 = s\<lparr>usdcBal := ((usdcBal s)(from := usdcBal s from - a))(thisAddress s :=
                 ((usdcBal s)(from := usdcBal s from - a)) (thisAddress s) + a),
            usdcAllowance := (usdcAllowance s)(from := usdcAllowance s from - a)\<rparr>"
  by (auto simp: usdcSafeTransferFrom_def Let_def split: if_splits)


lemma bid_state:
  assumes "bid sender now i w a s = Inr s'"
  defines "r \<equiv> round_id (currentRound s)"
  defines "c \<equiv> bidCumulative sender i a s"
  shows "s' = s\<lparr>
      currentRound := (currentRound s)\<lparr>
         startedAt := (if startedAt (currentRound s) = 0 then now else startedAt (currentRound s)),
         endTime := bidEndTime now s,
         prizePool := prizePool (currentRound s) + a * splitBps s div 10000\<rparr>,
      nextPrizePool := nextPrizePool s + (a - a * splitBps s div 10000),
      cumulativeBids := (cumulativeBids s)(r := (cumulativeBids s r)(i := (cumulativeBids s r i)(sender := c))),
      totalSpent := (totalSpent s)(r := (totalSpent s r)(sender := totalSpent s r sender + a)),
      isPlayer := (isPlayer s)(r := (isPlayer s r)(sender := True)),
      roundPlayers := (if isPlayer s r sender then roundPlayers s
                       else (roundPlayers s)(r := roundPlayers s r @ [sender])),
      playerSlotCount := (if c > highestTotal (slots s i)
                          then (playerSlotCount s)(r :=
                                  countsAfter sender (owner (slots s i)) (playerSlotCount s r))
                          else playerSlotCount s),
      slots := (if c > highestTotal (slots s i)
                then (slots s)(i := \<lparr>word = w, owner = sender, highestTotal = c\<rparr>)
                else slots s),
      usdcBal := ((usdcBal s)(sender := usdcBal s sender - a))(thisAddress s :=
                 ((usdcBal s)(sender := usdcBal s sender - a)) (thisAddress s) + a),
      usdcAllowance := (usdcAllowance s)(sender := usdcAllowance s sender - a)\<rparr>"
proof -
  from assms(1) obtain s1 s2 s3 s4 s5 where
    st: "startClock now s = Inr s1" "antiSnipe now s1 = Inr s2"
      "updateCumulative sender i a s2 = Inr s3" "bidSplit a s3 = Inr s4"
      "updateSlot sender i w (trackPlayer sender s4) = Inr s5"
      "usdcSafeTransferFrom sender a s5 = Inr s'"
    by (blast dest: bid_Inr)
  define sa where "sa = (if startedAt (currentRound s) = 0 then now else startedAt (currentRound s))"
  define e0 where "e0 = clockStart now s"
  define e1 where "e1 = bidEndTime now s"
  define p where "p = prizePool (currentRound s) + a * splitBps s div 10000"
  define n where "n = nextPrizePool s + (a - a * splitBps s div 10000)"
  define cb where "cb = (cumulativeBids s)(r := (cumulativeBids s r)(i := (cumulativeBids s r i)(sender := c)))"
  define ts where "ts = (totalSpent s)(r := (totalSpent s r)(sender := totalSpent s r sender + a))"
  define ip where "ip = (isPlayer s)(r := (isPlayer s r)(sender := True))"
  define rp where "rp = (if isPlayer s r sender then roundPlayers s
                       else (roundPlayers s)(r := roundPlayers s r @ [sender]))"
  have q1: "s1 = s\<lparr>currentRound := (currentRound s)\<lparr>startedAt := sa, endTime := e0\<rparr>\<rparr>"
    using startClock_Inr[OF st(1)] by (simp add: sa_def e0_def clockStart_def)
  have q2: "s2 = s\<lparr>currentRound := (currentRound s)\<lparr>startedAt := sa, endTime := e1\<rparr>\<rparr>"
    using antiSnipe_Inr[OF st(2), THEN conjunct2]
    by (simp add: q1 e1_def bidEndTime_def e0_def)
  have q3: "s3 = s\<lparr>currentRound := (currentRound s)\<lparr>startedAt := sa, endTime := e1\<rparr>,
                    cumulativeBids := cb, totalSpent := ts\<rparr>"
    using updateCumulative_Inr[OF st(3)]
    by (simp add: q2 cb_def ts_def r_def c_def bidCumulative_def)
  have q4: "s4 = s\<lparr>currentRound := (currentRound s)\<lparr>startedAt := sa, endTime := e1, prizePool := p\<rparr>,
                    nextPrizePool := n, cumulativeBids := cb, totalSpent := ts\<rparr>"
    using bidSplit_Inr[OF st(4), THEN conjunct2]
    by (simp add: q3 p_def n_def)
  have q4': "trackPlayer sender s4 =
               s\<lparr>currentRound := (currentRound s)\<lparr>startedAt := sa, endTime := e1, prizePool := p\<rparr>,
                    nextPrizePool := n, cumulativeBids := cb, totalSpent := ts,
                    isPlayer := ip, roundPlayers := rp\<rparr>"
    by (simp add: trackPlayer_eq q4 ip_def rp_def r_def)
  have cc: "cb r i sender = c"
    by (simp add: cb_def)
  have q5: "s5 = s\<lparr>currentRound := (currentRound s)\<lparr>startedAt := sa, endTime := e1, prizePool := p\<rparr>,
                    nextPrizePool := n, cumulativeBids := cb, totalSpent := ts,
                    isPlayer := ip, roundPlayers := rp,
                    playerSlotCount := (if c > highestTotal (slots s i)
                          then (playerSlotCount s)(r :=
                                  countsAfter sender (owner (slots s i)) (playerSlotCount s r))
                          else playerSlotCount s),
                    slots := (if c > highestTotal (slots s i)
                       then (slots s)(i := \<lparr>word = w, owner = sender, highestTotal = c\<rparr>)
                       else slots s)\<rparr>"
    unfolding updateSlot_Inr(1)[OF st(5)] q4'
    by (simp add: cc r_def cc[unfolded r_def])
  show ?thesis
    unfolding usdcSafeTransferFrom_Inr[OF st(6)] q5
    by (simp add: sa_def e1_def p_def n_def cb_def ts_def ip_def rp_def)
qed
lemma usdcSafeTransfer_Inr:
  "usdcSafeTransfer to a s = Inr s1 \<Longrightarrow>
     a \<le> usdcBal s (thisAddress s) \<and> \<not> usdcDenied s to \<and>
     s1 = s\<lparr>usdcBal := ((usdcBal s)(thisAddress s := usdcBal s (thisAddress s) - a))(to :=
                 ((usdcBal s)(thisAddress s := usdcBal s (thisAddress s) - a)) to + a)\<rparr>"
  by (auto simp: usdcSafeTransfer_def Let_def split: if_splits)

lemma frame_refl:
  "\<exists>b. s = s\<lparr>usdcBal := b\<rparr>"
  "\<exists>e u. s = s\<lparr>ethBal := e, unclaimedEth := u\<rparr>"
  "\<exists>b e u. s = s\<lparr>usdcBal := b, ethBal := e, unclaimedEth := u\<rparr>"
  by (rule exI[of _ "usdcBal s"] exI[of _ "ethBal s"] exI[of _ "unclaimedEth s"], simp)+

lemma usdcSafeTransfer_frame:
  "usdcSafeTransfer to a s = Inr s1 \<Longrightarrow> \<exists>b. s1 = s\<lparr>usdcBal := b\<rparr>"
  by (blast dest: usdcSafeTransfer_Inr)

lemma ethCall_frame:
  "ethCall to a s = (ok, s1) \<Longrightarrow> \<exists>e. s1 = s\<lparr>ethBal := e\<rparr>"
  by (auto simp: ethCall_def Let_def split: if_splits intro: exI[of _ "ethBal s"])

lemma ethPayout_frame:
  "ethPayout w a s = Inr s1 \<Longrightarrow> \<exists>e u. s1 = s\<lparr>ethBal := e, unclaimedEth := u\<rparr>"
proof -
  assume a: "ethPayout w a s = Inr s1"
  obtain ok s0 where c: "ethCall w a s = (ok, s0)" by (cases "ethCall w a s")
  then obtain e where e: "s0 = s\<lparr>ethBal := e\<rparr>" by (blast dest: ethCall_frame)
  show ?thesis
  proof (cases ok)
    case True
    with a c have "s1 = s0" by (simp add: ethPayout_def)
    then have "s1 = s\<lparr>ethBal := e, unclaimedEth := unclaimedEth s\<rparr>" by (simp add: e)
    then show ?thesis by blast
  next
    case False
    with a c have "s1 = s0\<lparr>unclaimedEth := (unclaimedEth s0)(w := unclaimedEth s0 w + a)\<rparr>"
      by (auto simp: ethPayout_def bindE_eq_Inr add256_Inr)
    then have "s1 = s\<lparr>ethBal := e, unclaimedEth := (unclaimedEth s)(w := unclaimedEth s w + a)\<rparr>"
      by (simp add: e)
    then show ?thesis by blast
  qed
qed

lemma payUsdc_frame:
  "payUsdc xs s = Inr s1 \<Longrightarrow> \<exists>b. s1 = s\<lparr>usdcBal := b\<rparr>"
proof (induction xs arbitrary: s)
  case Nil
  then show ?case by (simp add: frame_refl)
next
  case (Cons x xs)
  obtain w a where x: "x = (w, a)" by (cases x)
  from Cons.prems obtain s0 where
    s0: "(if a > 0 then usdcSafeTransfer w a s else Inr s) = Inr s0" and r: "payUsdc xs s0 = Inr s1"
    by (auto simp: x bindE_eq_Inr)
  from s0 obtain b0 where b0: "s0 = s\<lparr>usdcBal := b0\<rparr>"
    using frame_refl(1)[of s] by (cases "a > 0") (auto dest: usdcSafeTransfer_frame)
  from Cons.IH[OF r] obtain b where "s1 = s0\<lparr>usdcBal := b\<rparr>" by blast
  then have "s1 = s\<lparr>usdcBal := b\<rparr>" by (simp add: b0)
  then show ?case by blast
qed

lemma payEth_frame:
  "payEth xs s = Inr s1 \<Longrightarrow> \<exists>e u. s1 = s\<lparr>ethBal := e, unclaimedEth := u\<rparr>"
proof (induction xs arbitrary: s)
  case Nil
  then show ?case by (simp add: frame_refl)
next
  case (Cons x xs)
  obtain w a where x: "x = (w, a)" by (cases x)
  from Cons.prems obtain s0 where
    s0: "(if a > 0 then ethPayout w a s else Inr s) = Inr s0" and r: "payEth xs s0 = Inr s1"
    by (auto simp: x bindE_eq_Inr)
  from s0 obtain e0 u0 where b0: "s0 = s\<lparr>ethBal := e0, unclaimedEth := u0\<rparr>"
    using frame_refl(2)[of s] by (cases "a > 0") (auto dest: ethPayout_frame)
  from Cons.IH[OF r] obtain e u where "s1 = s0\<lparr>ethBal := e, unclaimedEth := u\<rparr>" by blast
  then have "s1 = s\<lparr>ethBal := e, unclaimedEth := u\<rparr>" by (simp add: b0)
  then show ?case by blast
qed

lemma payBoth_frame:
  "payBoth xs s = Inr s1 \<Longrightarrow> \<exists>b e u. s1 = s\<lparr>usdcBal := b, ethBal := e, unclaimedEth := u\<rparr>"
proof (induction xs arbitrary: s)
  case Nil
  then show ?case by (simp add: frame_refl)
next
  case (Cons x xs)
  obtain w a c where x: "x = (w, a, c)" by (cases x)
  from Cons.prems obtain s0 s0' where
    s0: "(if a > 0 then usdcSafeTransfer w a s else Inr s) = Inr s0"
    and s0': "(if c > 0 then ethPayout w c s0 else Inr s0) = Inr s0'"
    and r: "payBoth xs s0' = Inr s1"
    by (auto simp: x bindE_eq_Inr)
  from s0 obtain b0 where b0: "s0 = s\<lparr>usdcBal := b0\<rparr>"
    using frame_refl(1)[of s] by (cases "a > 0") (auto dest: usdcSafeTransfer_frame)
  from s0' obtain e0 u0 where b0': "s0' = s0\<lparr>ethBal := e0, unclaimedEth := u0\<rparr>"
    using frame_refl(2)[of s0] by (cases "c > 0") (auto dest: ethPayout_frame)
  from Cons.IH[OF r] obtain b e u where "s1 = s0'\<lparr>usdcBal := b, ethBal := e, unclaimedEth := u\<rparr>" by blast
  then have "s1 = s\<lparr>usdcBal := b, ethBal := e, unclaimedEth := u\<rparr>" by (simp add: b0 b0')
  then show ?case by blast
qed

lemma createRound_Inr:
  "createRound now p e s = Inr s1 \<Longrightarrow>
     s1 = s\<lparr>slots := clearSlots (slots s),
            currentRound := \<lparr>round_id = round_id (currentRound s) + 1, createdAt = now, startedAt = 0,
                              endTime = 0, prizePool = p, ethPrizePool = e, resolved = False\<rparr>\<rparr>"
  by (auto simp: createRound_def bindE_eq_Inr add256_Inr)

lemma autoAdvance_Inr:
  "autoAdvance now s = Inr s1 \<Longrightarrow>
     (nextPrizePool s < MIN_AUTO_START \<and> s1 = s) \<or>
     (MIN_AUTO_START \<le> nextPrizePool s \<and>
      s1 = s\<lparr>nextPrizePool := 0, pendingEth := 0,
             slots := clearSlots (slots s),
             currentRound := \<lparr>round_id = round_id (currentRound s) + 1, createdAt = now, startedAt = 0,
                              endTime = 0, prizePool = nextPrizePool s, ethPrizePool = pendingEth s,
                              resolved = False\<rparr>\<rparr>)"
  by (auto simp: autoAdvance_def Let_def bindE_eq_Inr split: if_splits dest!: createRound_Inr)

lemma onlyFundsI:
  "s' = s\<lparr>accumulatedRake := ar, nextPrizePool := n, pendingEth := pe,
            usdcBal := b, ethBal := e, unclaimedEth := u\<rparr> \<Longrightarrow> onlyFunds s s'"
  unfolding onlyFunds_def by blast

lemma onlyFunds_refl: "onlyFunds s s"
  by (rule onlyFundsI[where ar="accumulatedRake s" and n="nextPrizePool s" and pe="pendingEth s" and b="usdcBal s" and e="ethBal s" and u="unclaimedEth s"]) simp

lemma onlyFunds_trans: "onlyFunds s s1 \<Longrightarrow> onlyFunds s1 s2 \<Longrightarrow> onlyFunds s s2"
  unfolding onlyFunds_def by (elim exE) (simp, blast)

lemma onlyFunds_rake: "onlyFunds s (s\<lparr>accumulatedRake := ar\<rparr>)"
  by (rule onlyFundsI[where ar=ar and n="nextPrizePool s" and pe="pendingEth s" and b="usdcBal s" and e="ethBal s" and u="unclaimedEth s"]) simp

lemma onlyFunds_carry: "onlyFunds s (s\<lparr>nextPrizePool := n, pendingEth := pe\<rparr>)"
  by (rule onlyFundsI[where ar="accumulatedRake s" and n=n and pe=pe and b="usdcBal s" and e="ethBal s" and u="unclaimedEth s"]) simp

lemma onlyFunds_ledgers: "onlyFunds s (s\<lparr>usdcBal := b, ethBal := e, unclaimedEth := u\<rparr>)"
  by (rule onlyFundsI[where ar="accumulatedRake s" and n="nextPrizePool s" and pe="pendingEth s" and b=b and e=e and u=u]) simp

lemma onlyFunds_fields:
  assumes "onlyFunds s s'"
  shows "currentRound s' = currentRound s" "slots s' = slots s"
    "cumulativeBids s' = cumulativeBids s" "totalSpent s' = totalSpent s"
    "playerSlotCount s' = playerSlotCount s" "roundPlayers s' = roundPlayers s"
    "isPlayer s' = isPlayer s" "maxSlotsPerPlayer s' = maxSlotsPerPlayer s"
    "thisAddress s' = thisAddress s" "contractOwner s' = contractOwner s"
    "oracleAddress s' = oracleAddress s" "paused s' = paused s"
    "usdcDenied s' = usdcDenied s" "ethRejects s' = ethRejects s"
    "rakeBps s' = rakeBps s" "splitBps s' = splitBps s" "minBid s' = minBid s"
    "roundDuration s' = roundDuration s" "usdcAllowance s' = usdcAllowance s" "usdc s' = usdc s"
  using assms unfolding onlyFunds_def by auto

lemma onlyFunds_usdc: "onlyFunds s (s\<lparr>usdcBal := b\<rparr>)"
  by (rule onlyFundsI[where ar="accumulatedRake s" and n="nextPrizePool s" and pe="pendingEth s" and b=b and e="ethBal s" and u="unclaimedEth s"]) simp

lemma onlyFunds_eth: "onlyFunds s (s\<lparr>ethBal := e, unclaimedEth := u\<rparr>)"
  by (rule onlyFundsI[where ar="accumulatedRake s" and n="nextPrizePool s" and pe="pendingEth s" and b="usdcBal s" and e=e and u=u]) simp

lemma usdcSafeTransfer_onlyFunds: "usdcSafeTransfer to a s = Inr s1 \<Longrightarrow> onlyFunds s s1"
  by (drule usdcSafeTransfer_frame) (auto intro: onlyFunds_usdc)

lemma payUsdc_onlyFunds: "payUsdc xs s = Inr s1 \<Longrightarrow> onlyFunds s s1"
  by (drule payUsdc_frame) (auto intro: onlyFunds_usdc)

lemma payEth_onlyFunds: "payEth xs s = Inr s1 \<Longrightarrow> onlyFunds s s1"
  by (drule payEth_frame) (auto intro: onlyFunds_eth)

lemma payBoth_onlyFunds: "payBoth xs s = Inr s1 \<Longrightarrow> onlyFunds s s1"
  by (drule payBoth_frame) (auto intro: onlyFunds_ledgers)

lemma validateResolution_Inr:
  "validateResolution now s = Inr u \<longleftrightarrow>
     round_id (currentRound s) > 0 \<and> \<not> resolved (currentRound s) \<and>
     startedAt (currentRound s) > 0 \<and> endTime (currentRound s) \<le> now"
  by (auto simp: validateResolution_def)

lemma resolveRound_shape:
  assumes "resolveRound sender now ws us es s = Inr s'"
  shows "\<exists>s3. sender = oracleAddress s \<and> validateResolution now s = Inr () \<and>
           2 \<le> length (roundPlayers s (round_id (currentRound s))) \<and>
           onlyFunds s s3 \<and> autoAdvance now (setResolved s3) = Inr s'"
proof -
  from assms obtain ar s2 s3 where
    a: "sender = oracleAddress s" "validateResolution now s = Inr ()"
       "2 \<le> length (roundPlayers s (round_id (currentRound s)))"
    and p: "payUsdc (zip ws us) (s\<lparr>accumulatedRake := ar\<rparr>) = Inr s2"
    and e: "s3 = s2 \<or> payEth (zip ws es) s2 = Inr s3"
    and f: "autoAdvance now (setResolved s3) = Inr s'"
    by (auto simp: resolveRound_def onlyOracle_def Let_def bindE_eq_Inr split: if_splits)
  have "onlyFunds s s2"
    using onlyFunds_trans[OF onlyFunds_rake payUsdc_onlyFunds[OF p]] .
  moreover have "onlyFunds s2 s3"
    using e by (auto intro: onlyFunds_refl payEth_onlyFunds)
  ultimately have "onlyFunds s s3" by (rule onlyFunds_trans)
  with a f show ?thesis by blast
qed

lemma refundSoloRound_alt:
  "refundSoloRound sender now s =
     bindE (validateResolution now s) (\<lambda>_.
       if length (roundPlayers s (round_id (currentRound s))) \<ge> 2 then Inl HasMultiplePlayers
       else bindE (soloCarry (round_id (currentRound s)) (roundPlayers s (round_id (currentRound s))) s)
              (\<lambda>s2. autoAdvance now (setResolved s2)))"
  unfolding refundSoloRound_def soloCarry_def Let_def by simp

lemma emergencySoloRefund_alt:
  "emergencySoloRefund now roundId players s =
     bindE (soloCarry roundId players s) (\<lambda>s2. autoAdvance now (setResolved s2))"
  unfolding emergencySoloRefund_def soloCarry_def Let_def by simp

lemma soloCarry_onlyFunds:
  assumes "soloCarry r ps s = Inr s2"
  shows "onlyFunds s s2"
proof (cases "length ps = 1 \<and> totalSpent s r (ps ! 0) > 0")
  case True
  with assms obtain n e where
    "usdcSafeTransfer (ps ! 0) (totalSpent s r (ps ! 0)) (s\<lparr>nextPrizePool := n, pendingEth := e\<rparr>) = Inr s2"
    by (auto simp: soloCarry_def bindE_eq_Inr)
  from onlyFunds_trans[OF onlyFunds_carry usdcSafeTransfer_onlyFunds[OF this]] show ?thesis .
next
  case False
  with assms obtain n e where "s2 = s\<lparr>nextPrizePool := n, pendingEth := e\<rparr>"
    by (auto simp: soloCarry_def bindE_eq_Inr split: if_splits)
  then show ?thesis by (simp add: onlyFunds_carry)
qed

lemma refundSoloRound_shape:
  assumes "refundSoloRound sender now s = Inr s'"
  shows "\<exists>s2. validateResolution now s = Inr () \<and>
           length (roundPlayers s (round_id (currentRound s))) < 2 \<and>
           onlyFunds s s2 \<and> autoAdvance now (setResolved s2) = Inr s'"
  using assms
  by (auto simp: refundSoloRound_alt bindE_eq_Inr split: if_splits dest!: soloCarry_onlyFunds)

lemma emergencySoloRefund_shape:
  assumes "emergencySoloRefund now r ps s = Inr s'"
  shows "\<exists>s2. onlyFunds s s2 \<and> autoAdvance now (setResolved s2) = Inr s'"
  using assms
  by (auto simp: emergencySoloRefund_alt bindE_eq_Inr dest!: soloCarry_onlyFunds)

lemma emergencyResolve_shape:
  assumes "emergencyResolve sender now s = Inr s'"
  shows "\<exists>s2. sender = contractOwner s \<and> validateResolution now s = Inr () \<and>
           endTime (currentRound s) + EMERGENCY_TIMEOUT \<le> now \<and>
           onlyFunds s s2 \<and> autoAdvance now (setResolved s2) = Inr s'"
proof -
  from assms have a: "sender = contractOwner s" "validateResolution now s = Inr ()"
    "endTime (currentRound s) + EMERGENCY_TIMEOUT \<le> now"
    by (auto simp: emergencyResolve_def onlyOwner_def bindE_eq_Inr add256_Inr split: if_splits)
  show ?thesis
  proof (cases "length (roundPlayers s (round_id (currentRound s))) < 2")
    case True
    with assms have "emergencySoloRefund now (round_id (currentRound s))
                       (roundPlayers s (round_id (currentRound s))) s = Inr s'"
      by (auto simp: emergencyResolve_def Let_def bindE_eq_Inr split: if_splits)
    from emergencySoloRefund_shape[OF this] a show ?thesis by blast
  next
    case False
    with assms obtain ar xs s2 where
      p: "payBoth xs (s\<lparr>accumulatedRake := ar\<rparr>) = Inr s2"
      and f: "autoAdvance now (setResolved s2) = Inr s'"
      by (auto simp: emergencyResolve_def Let_def bindE_eq_Inr split: if_splits prod.splits)
    have "onlyFunds s s2"
      using onlyFunds_trans[OF onlyFunds_rake payBoth_onlyFunds[OF p]] .
    with a f show ?thesis by blast
  qed
qed

lemma ethCall_fields:
  assumes "ethCall to a s = (ok, s1)"
  shows "currentRound s1 = currentRound s" "slots s1 = slots s"
  using ethCall_frame[OF assms] by auto

lemma advance_round:
  assumes "onlyFunds s s2" and "autoAdvance now (setResolved s2) = Inr s'"
  shows "(round_id (currentRound s') = round_id (currentRound s) + 1 \<and>
          \<not> resolved (currentRound s') \<and> startedAt (currentRound s') = 0) \<or>
         (round_id (currentRound s') = round_id (currentRound s) \<and>
          resolved (currentRound s') \<and> slots s' = slots s)"
  using autoAdvance_Inr[OF assms(2)] onlyFunds_fields(1,2)[OF assms(1)]
  by (auto simp: setResolved_def)

lemma resolution_round:
  assumes "isResolution c" and "exec sender now c s = Inr s'"
  shows "validateResolution now s = Inr () \<and>
         ((round_id (currentRound s') = round_id (currentRound s) + 1 \<and>
           \<not> resolved (currentRound s') \<and> startedAt (currentRound s') = 0) \<or>
          (round_id (currentRound s') = round_id (currentRound s) \<and>
           resolved (currentRound s') \<and> slots s' = slots s))"
proof (cases c)
  case (ResolveRound ws us es)
  with assms(2) show ?thesis
    by (auto dest!: resolveRound_shape dest: advance_round)
next
  case RefundSoloRound
  with assms(2) show ?thesis
    by (auto dest!: refundSoloRound_shape dest: advance_round)
next
  case EmergencyResolve
  with assms(2) show ?thesis
    by (auto dest!: emergencyResolve_shape dest: advance_round)
qed (use assms(1) in simp_all)

lemma startRound_round:
  "startRound sender now topUp s = Inr s' \<Longrightarrow>
     round_id (currentRound s') = round_id (currentRound s) + 1"
  by (auto simp: startRound_def whenNotPaused_def bindE_eq_Inr add256_Inr
      split: if_splits dest!: createRound_Inr usdcSafeTransferFrom_Inr)

lemma exec_round:
  assumes "exec sender now c s = Inr s'"
  shows "round_id (currentRound s') = round_id (currentRound s) + 1 \<or>
         (round_id (currentRound s') = round_id (currentRound s) \<and>
          (resolved (currentRound s) \<longrightarrow> resolved (currentRound s')) \<and>
          ((\<exists>i w a. c = Bid i w a) \<or> slots s' = slots s))"
proof (cases c)
  case (StartRound topUp)
  with assms show ?thesis by (simp add: startRound_round)
next
  case (Fund amount)
  with assms show ?thesis
    by (auto simp: fund_def whenNotPaused_def bindE_eq_Inr add256_Inr
        split: if_splits dest!: usdcSafeTransferFrom_Inr)
next
  case (Receive v)
  with assms show ?thesis
    by (auto simp: receive_def Let_def bindE_eq_Inr add256_Inr split: if_splits)
next
  case (Bid i w a)
  with assms have "bid sender now i w a s = Inr s'" by simp
  from bid_state[OF this] Bid show ?thesis by simp
next
  case (ResolveRound ws us es)
  with resolution_round[OF _ assms] show ?thesis by auto
next
  case RefundSoloRound
  with resolution_round[OF _ assms] show ?thesis by auto
next
  case EmergencyResolve
  with resolution_round[OF _ assms] show ?thesis by auto
next
  case WithdrawRake
  with assms show ?thesis
    by (auto simp: withdrawRake_def Let_def bindE_eq_Inr dest!: usdcSafeTransfer_frame)
next
  case ClaimEth
  with assms show ?thesis
    by (auto simp: claimEth_def Let_def split: if_splits prod.splits dest!: ethCall_frame)
next
  case RescueEth
  with assms show ?thesis
    by (auto simp: rescueEth_def bindE_eq_Inr split: if_splits prod.splits dest!: ethCall_frame)
qed (use assms in \<open>auto simp: setOracle_def setMinBid_def setRoundDuration_def setRake_def
       setSplit_def setMaxSlotsPerPlayer_def pause_def unpause_def rescueToken_def
       bindE_eq_Inr split: if_splits\<close>)

lemmas ev = run_def apply_tx_def deployed_def world0_def constructor_def
  startRound_def bid_def fund_def receive_def whenNotPaused_def roundOpen_def bindE_def
  createRound_def add256_def sub256_def mul256_def MAX_UINT256_def NUM_SLOTS_def
  MAX_WORD_LENGTH_def MAX_RAKE_BPS_def startClock_def antiSnipe_def updateCumulative_def
  bidSplit_def trackPlayer_def slotCap_def updateSlot_def usdcSafeTransferFrom_def clearSlots_def
  usdcSafeTransfer_def ANTI_SNIPE_WINDOW_def ANTI_SNIPE_EXTENSION_def Let_def emptySlot_def

lemma apply_tx_round:
  "round_id (currentRound s) \<le> round_id (currentRound (apply_tx s tx))"
proof -
  obtain sender now c where tx: "tx = (sender, now, c)" by (cases tx)
  show ?thesis
  proof (cases "exec sender now c s")
    case (Inl e)
    then show ?thesis by (simp add: apply_tx_def tx)
  next
    case (Inr s')
    with exec_round[OF Inr] show ?thesis by (auto simp: apply_tx_def tx)
  qed
qed

lemma run_Cons: "run (tx # txs) s = run txs (apply_tx s tx)"
  by (simp add: run_def)

lemma run_round_mono:
  "round_id (currentRound s) \<le> round_id (currentRound (run txs s))"
proof (induction txs arbitrary: s)
  case Nil
  then show ?case by (simp add: run_def)
next
  case (Cons tx txs)
  show ?case
    using apply_tx_round[of s tx] Cons.IH[of "apply_tx s tx"] by (simp add: run_Cons)
qed

lemma bid_highest_mono:
  assumes "bid sender now i w a s = Inr s'"
  shows "highestTotal (slots s j) \<le> highestTotal (slots s' j)"
  by (simp add: bid_state[OF assms])

lemma apply_tx_same_round:
  assumes "round_id (currentRound (apply_tx s tx)) = round_id (currentRound s)"
  shows "highestTotal (slots s j) \<le> highestTotal (slots (apply_tx s tx) j)"
    and "resolved (currentRound s) \<Longrightarrow> resolved (currentRound (apply_tx s tx))"
proof -
  obtain sender now c where tx: "tx = (sender, now, c)" by (cases tx)
  show "highestTotal (slots s j) \<le> highestTotal (slots (apply_tx s tx) j)"
  proof (cases "exec sender now c s")
    case (Inl e)
    then show ?thesis by (simp add: apply_tx_def tx)
  next
    case (Inr s')
    with assms have same: "round_id (currentRound s') = round_id (currentRound s)"
      by (simp add: apply_tx_def tx)
    show ?thesis
    proof (cases "\<exists>i w a. c = Bid i w a")
      case True
      then obtain i w a where "c = Bid i w a" by blast
      with Inr have "bid sender now i w a s = Inr s'" by simp
      from bid_highest_mono[OF this] Inr show ?thesis by (simp add: apply_tx_def tx)
    next
      case False
      with exec_round[OF Inr] same have "slots s' = slots s" by auto
      with Inr show ?thesis by (simp add: apply_tx_def tx)
    qed
  qed
  show "resolved (currentRound (apply_tx s tx))" if "resolved (currentRound s)"
  proof (cases "exec sender now c s")
    case (Inl e)
    with that show ?thesis by (simp add: apply_tx_def tx)
  next
    case (Inr s')
    with assms have same: "round_id (currentRound s') = round_id (currentRound s)"
      by (simp add: apply_tx_def tx)
    with exec_round[OF Inr] that Inr show ?thesis by (auto simp: apply_tx_def tx)
  qed
qed

lemma run_same_round_step:
  assumes "round_id (currentRound (run (tx # txs) s)) = round_id (currentRound s)"
  shows "round_id (currentRound (apply_tx s tx)) = round_id (currentRound s)"
    and "round_id (currentRound (run txs (apply_tx s tx))) = round_id (currentRound (apply_tx s tx))"
proof -
  have "round_id (currentRound s) \<le> round_id (currentRound (apply_tx s tx))"
    by (rule apply_tx_round)
  moreover have "round_id (currentRound (apply_tx s tx)) \<le> round_id (currentRound (run txs (apply_tx s tx)))"
    by (rule run_round_mono)
  ultimately show "round_id (currentRound (apply_tx s tx)) = round_id (currentRound s)"
    and "round_id (currentRound (run txs (apply_tx s tx))) = round_id (currentRound (apply_tx s tx))"
    using assms by (simp_all add: run_Cons)
qed

lemma run_same_round_highest:
  assumes "round_id (currentRound (run txs s)) = round_id (currentRound s)"
  shows "highestTotal (slots s j) \<le> highestTotal (slots (run txs s) j)"
  using assms
proof (induction txs arbitrary: s)
  case Nil
  then show ?case by (simp add: run_def)
next
  case (Cons tx txs)
  note st = run_same_round_step[OF Cons.prems]
  from apply_tx_same_round(1)[OF st(1), of j] Cons.IH[OF st(2)] show ?case
    by (simp add: run_Cons)
qed

lemma run_same_round_resolved:
  assumes "round_id (currentRound (run txs s)) = round_id (currentRound s)"
    and "resolved (currentRound s)"
  shows "resolved (currentRound (run txs s))"
  using assms
proof (induction txs arbitrary: s)
  case Nil
  then show ?case by (simp add: run_def)
next
  case (Cons tx txs)
  note st = run_same_round_step[OF Cons.prems(1)]
  from Cons.IH[OF st(2) apply_tx_same_round(2)[OF st(1) Cons.prems(2)]] show ?case
    by (simp add: run_Cons)
qed

lemma demoStarted_eq:
  "demoStarted =
     \<lparr>thisAddress = 100, usdc = 200, contractOwner = 1, paused = False,
        minBid = 1, oracleAddress = 2, roundDuration = 3600,
        rakeBps = 500, splitBps = 5000, maxSlotsPerPlayer = 6,
        accumulatedRake = 0, nextPrizePool = 0, pendingEth = 0,
        currentRound =
          \<lparr>round_id = 1, createdAt = 1000, startedAt = 0, endTime = 0,
             prizePool = 100, ethPrizePool = 0, resolved = False\<rparr>,
        slots = clearSlots (\<lambda>_. \<lparr>word = [], owner = 0, highestTotal = 0\<rparr>),
        cumulativeBids = \<lambda>_ _ _. 0, totalSpent = \<lambda>_ _. 0,
        playerSlotCount = \<lambda>_ _. 0, roundPlayers = \<lambda>_. [],
        isPlayer = \<lambda>_ _. False, unclaimedEth = \<lambda>_. 0,
        usdcBal = (\<lambda>a. if a = 100 then 0 else 1000000000)(1 := 999999900, 100 := 100),
        usdcAllowance = (\<lambda>_. 1000000000)(1 := 999999900),
        usdcDenied = \<lambda>a. a = 0,
        ethBal = \<lambda>a. if a = 100 then 0 else 1000000000,
        ethRejects = \<lambda>a. a = 9\<rparr>"
  by (simp add: demoStarted_def run_def apply_tx_def deployed_def world0_def constructor_def
      startRound_def whenNotPaused_def bindE_def createRound_def add256_def MAX_UINT256_def
      MAX_RAKE_BPS_def usdcSafeTransferFrom_def Let_def emptySlot_def)

lemmas evb = apply_tx_def bid_def whenNotPaused_def roundOpen_def bindE_def
  add256_def sub256_def mul256_def MAX_UINT256_def NUM_SLOTS_def
  MAX_WORD_LENGTH_def startClock_def antiSnipe_def updateCumulative_def
  bidSplit_def trackPlayer_def slotCap_def updateSlot_def usdcSafeTransferFrom_def clearSlots_def
  ANTI_SNIPE_WINDOW_def ANTI_SNIPE_EXTENSION_def Let_def emptySlot_def

lemma demoTwo_eq:
  "demoTwo =
     \<lparr>thisAddress = 100, usdc = 200, contractOwner = 1, paused = False,
        minBid = 1, oracleAddress = 2, roundDuration = 3600,
        rakeBps = 500, splitBps = 5000, maxSlotsPerPlayer = 6,
        accumulatedRake = 0, nextPrizePool = 15, pendingEth = 0,
        currentRound =
          \<lparr>round_id = 1, createdAt = 1000, startedAt = 2000,
             endTime = 5600, prizePool = 115, ethPrizePool = 0,
             resolved = False\<rparr>,
        slots =
          (clearSlots (\<lambda>_. \<lparr>word = [], owner = 0, highestTotal = 0\<rparr>))
          (0 := \<lparr>word = ''beta'', owner = 4, highestTotal = 20\<rparr>),
        cumulativeBids =
          (\<lambda>_ _ _. 0)(1 := (\<lambda>_ _. 0)(0 := (\<lambda>_. 0)(3 := 10, 4 := 20))),
        totalSpent = (\<lambda>_ _. 0)(1 := (\<lambda>_. 0)(3 := 10, 4 := 20)),
        playerSlotCount = (\<lambda>_ _. 0)(1 := (\<lambda>_. 0)(4 := 1, 3 := 0)),
        roundPlayers = (\<lambda>_. [])(1 := [3, 4]),
        isPlayer = (\<lambda>_ _. False)(1 := (\<lambda>_. False)(3 := True, 4 := True)),
        unclaimedEth = \<lambda>_. 0,
        usdcBal =
          (\<lambda>a. if a = 100 then 0 else 1000000000)
          (1 := 999999900, 3 := 999999990, 4 := 999999980, 100 := 130),
        usdcAllowance =
          (\<lambda>_. 1000000000)
          (1 := 999999900, 3 := 999999990, 4 := 999999980),
        usdcDenied = \<lambda>a. a = 0,
        ethBal = \<lambda>a. if a = 100 then 0 else 1000000000,
        ethRejects = \<lambda>a. a = 9\<rparr>"
  by (simp add: demoTwo_def demoBids_def run_def demoStarted_eq evb)

lemma isBid_iff: "isBid c \<longleftrightarrow> (\<exists>i w a. c = Bid i w a)"
  by (cases c) simp_all

lemma apply_tx_bid_round:
  assumes "isBid (snd (snd tx))"
  shows "round_id (currentRound (apply_tx s tx)) = round_id (currentRound s)"
proof -
  obtain sender now c where tx: "tx = (sender, now, c)" by (cases tx)
  with assms obtain i w a where c: "c = Bid i w a" by (auto simp: isBid_iff)
  show ?thesis
  proof (cases "bid sender now i w a s")
    case (Inl e)
    then show ?thesis by (simp add: apply_tx_def tx c)
  next
    case (Inr s')
    from bid_state[OF Inr] Inr show ?thesis by (simp add: apply_tx_def tx c)
  qed
qed

lemma run_bids_round:
  assumes "\<forall>tx\<in>set txs. isBid (snd (snd tx))"
  shows "round_id (currentRound (run txs s)) = round_id (currentRound s)"
  using assms
proof (induction txs arbitrary: s)
  case Nil
  then show ?case by (simp add: run_def)
next
  case (Cons tx txs)
  then show ?case by (simp add: run_Cons apply_tx_bid_round)
qed

lemma bid_cumulative:
  assumes "bid sender now i w a s = Inr s'"
  shows "cumulativeBids s' (round_id (currentRound s)) i sender = bidCumulative sender i a s"
  by (simp add: bid_state[OF assms])

lemma bid_slots:
  assumes "bid sender now i w a s = Inr s'"
  shows "slots s' = (if bidCumulative sender i a s > highestTotal (slots s i)
                then (slots s)(i := \<lparr>word = w, owner = sender, highestTotal = bidCumulative sender i a s\<rparr>)
                else slots s)"
  by (simp add: bid_state[OF assms])

text \<open>
  C5. Within a round the highest cumulative total of a slot never decreases, whatever the
  transactions are (a list of bids stays within its round); a bid changes no slot but its
  own, and changes that one (owner, word and highest total) exactly when the bidder's
  new cumulative total is strictly above the slot's highest total: at a total equal to
  it, or below, the slot stays as it is. No other call changes a slot within a round.
\<close>

theorem highest_total_monotone:
  "(round_id (currentRound (run txs s)) = round_id (currentRound s) \<longrightarrow>
      highestTotal (slots s j) \<le> highestTotal (slots (run txs s) j)) \<and>
   ((\<forall>tx\<in>set txs. isBid (snd (snd tx))) \<longrightarrow>
      round_id (currentRound (run txs s)) = round_id (currentRound s)) \<and>
   (bid sender now i w a s = Inr s' \<longrightarrow>
      (\<forall>k. k \<noteq> i \<longrightarrow> slots s' k = slots s k) \<and>
      (cumulativeBids s' (round_id (currentRound s)) i sender > highestTotal (slots s i) \<longrightarrow>
         slots s' i = \<lparr>word = w, owner = sender,
                       highestTotal = cumulativeBids s' (round_id (currentRound s)) i sender\<rparr>) \<and>
      (cumulativeBids s' (round_id (currentRound s)) i sender \<le> highestTotal (slots s i) \<longrightarrow>
         slots s' i = slots s i)) \<and>
   (exec sender now c s = Inr s' \<and> \<not> isBid c \<and>
    round_id (currentRound s') = round_id (currentRound s) \<longrightarrow> slots s' = slots s)"
proof (intro conjI impI)
  assume "round_id (currentRound (run txs s)) = round_id (currentRound s)"
  then show "highestTotal (slots s j) \<le> highestTotal (slots (run txs s) j)"
    by (rule run_same_round_highest)
next
  assume "\<forall>tx\<in>set txs. isBid (snd (snd tx))"
  then show "round_id (currentRound (run txs s)) = round_id (currentRound s)"
    by (rule run_bids_round)
next
  assume b: "bid sender now i w a s = Inr s'"
  show "\<forall>k. k \<noteq> i \<longrightarrow> slots s' k = slots s k"
    by (simp add: bid_slots[OF b])
  show "slots s' i = \<lparr>word = w, owner = sender,
          highestTotal = cumulativeBids s' (round_id (currentRound s)) i sender\<rparr>"
    if "cumulativeBids s' (round_id (currentRound s)) i sender > highestTotal (slots s i)"
    using that by (simp add: bid_slots[OF b] bid_cumulative[OF b])
  show "slots s' i = slots s i"
    if "cumulativeBids s' (round_id (currentRound s)) i sender \<le> highestTotal (slots s i)"
    using that by (simp add: bid_slots[OF b] bid_cumulative[OF b])
next
  assume "exec sender now c s = Inr s' \<and> \<not> isBid c \<and>
    round_id (currentRound s') = round_id (currentRound s)"
  then show "slots s' = slots s"
    using exec_round[of sender now c s s'] by (auto simp: isBid_iff)
qed

theorem highest_total_monotone_witness:
  "round_id (currentRound (run demoBids demoStarted)) = round_id (currentRound demoStarted) \<and>
   highestTotal (slots demoStarted 0) \<le> highestTotal (slots (run demoBids demoStarted) 0) \<and>
   bid 3 2200 0 ''gamma'' 10 demoTwo = Inr (apply_tx demoTwo (3, 2200, Bid 0 ''gamma'' 10)) \<and>
   cumulativeBids (apply_tx demoTwo (3, 2200, Bid 0 ''gamma'' 10)) 1 0 3 = 20 \<and>
   highestTotal (slots demoTwo 0) = 20 \<and>
   slots (apply_tx demoTwo (3, 2200, Bid 0 ''gamma'' 10)) 0 = slots demoTwo 0"
proof -
  have bids: "\<forall>tx\<in>set demoBids. isBid (snd (snd tx))"
    by (simp add: demoBids_def)
  have two: "run demoBids demoStarted = demoTwo"
    by (simp add: demoTwo_def)
  have b: "bid 3 2200 0 ''gamma'' 10 demoTwo = Inr (apply_tx demoTwo (3, 2200, Bid 0 ''gamma'' 10))"
    by (simp add: demoTwo_eq demoStarted_eq run_def evb)
  have r: "round_id (currentRound demoTwo) = 1"
    by (simp add: demoTwo_eq demoStarted_eq run_def evb)
  have c: "cumulativeBids (apply_tx demoTwo (3, 2200, Bid 0 ''gamma'' 10)) 1 0 3 = 20"
    by (simp add: demoTwo_eq demoStarted_eq run_def evb)
  have h: "highestTotal (slots demoTwo 0) = 20"
    by (simp add: demoTwo_eq demoStarted_eq run_def evb)
  note t = highest_total_monotone[where txs = demoBids and s = demoStarted and j = 0]
  note u = highest_total_monotone[where s = demoTwo and sender = 3 and now = 2200 and i = 0
      and w = "''gamma''" and a = 10 and s' = "apply_tx demoTwo (3, 2200, Bid 0 ''gamma'' 10)"]
  from t bids have 1: "round_id (currentRound (run demoBids demoStarted)) = round_id (currentRound demoStarted)"
    by blast
  with t have 2: "highestTotal (slots demoStarted 0) \<le> highestTotal (slots (run demoBids demoStarted) 0)"
    by blast
  from u b c h r have 3: "slots (apply_tx demoTwo (3, 2200, Bid 0 ''gamma'' 10)) 0 = slots demoTwo 0"
    by simp
  from 1 2 b c h 3 show ?thesis by blast
qed

lemma roundOpen_Inr:
  "roundOpen now s = Inr u \<longleftrightarrow>
     round_id (currentRound s) > 0 \<and> \<not> resolved (currentRound s) \<and>
     \<not> (startedAt (currentRound s) > 0 \<and> endTime (currentRound s) \<le> now)"
  by (auto simp: roundOpen_def)

lemma bid_endTime:
  assumes "bid sender now i w a s = Inr s'"
  shows "endTime (currentRound s') = bidEndTime now s"
  by (simp add: bid_state[OF assms])

text \<open>
  C7, as amended. A successful bid on a round whose clock is running is placed before the
  end time; it moves the end time by exactly 60 when \<open>endTime - now \<le> 60\<close> and leaves it
  otherwise. The first bid of a pending round sets the end time to
  \<open>now + roundDuration\<close>, and adds the 60 when the duration itself is at most 60.
\<close>

theorem anti_snipe_running_round:
  assumes "bid sender now i w a s = Inr s'"
  shows "(startedAt (currentRound s) > 0 \<longrightarrow>
            now < endTime (currentRound s) \<and>
            (endTime (currentRound s) - now \<le> 60 \<longrightarrow>
               endTime (currentRound s') = endTime (currentRound s) + 60) \<and>
            (endTime (currentRound s) - now > 60 \<longrightarrow>
               endTime (currentRound s') = endTime (currentRound s))) \<and>
         (startedAt (currentRound s) = 0 \<longrightarrow>
            endTime (currentRound s') =
              now + roundDuration s + (if roundDuration s \<le> 60 then 60 else 0))"
proof -
  from bid_Inr[OF assms] have "roundOpen now s = Inr ()" by blast
  then have "startedAt (currentRound s) > 0 \<Longrightarrow> now < endTime (currentRound s)"
    by (auto simp: roundOpen_Inr)
  then show ?thesis
    by (auto simp: bid_endTime[OF assms] bidEndTime_def clockStart_def)
qed

theorem anti_snipe_running_round_witness:
  "bid 3 5590 0 ''gamma'' 10 demoTwo = Inr (apply_tx demoTwo (3, 5590, Bid 0 ''gamma'' 10)) \<and>
   startedAt (currentRound demoTwo) = 2000 \<and> endTime (currentRound demoTwo) = 5600 \<and>
   endTime (currentRound (apply_tx demoTwo (3, 5590, Bid 0 ''gamma'' 10))) = 5660 \<and>
   bid 3 2200 0 ''gamma'' 10 demoTwo = Inr (apply_tx demoTwo (3, 2200, Bid 0 ''gamma'' 10)) \<and>
   endTime (currentRound (apply_tx demoTwo (3, 2200, Bid 0 ''gamma'' 10))) = 5600"
proof -
  have b1: "bid 3 5590 0 ''gamma'' 10 demoTwo = Inr (apply_tx demoTwo (3, 5590, Bid 0 ''gamma'' 10))"
    by (simp add: demoTwo_eq demoStarted_eq run_def evb)
  have b2: "bid 3 2200 0 ''gamma'' 10 demoTwo = Inr (apply_tx demoTwo (3, 2200, Bid 0 ''gamma'' 10))"
    by (simp add: demoTwo_eq demoStarted_eq run_def evb)
  have f: "startedAt (currentRound demoTwo) = 2000" "endTime (currentRound demoTwo) = 5600"
    by (simp_all add: demoTwo_eq demoStarted_eq run_def evb)
  from anti_snipe_running_round[OF b1] anti_snipe_running_round[OF b2] b1 b2 f
  show ?thesis by simp
qed

text \<open>
  C7 as stated fails on the first bid of a pending round: the end time before the bid is
  0, the bid at time 2000 makes it 5600, which is neither \<open>0 + 60\<close> nor 0.
\<close>

theorem anti_snipe_first_bid_counterexample:
  "bid 3 2000 0 ''alpha'' 10 demoStarted =
     Inr (apply_tx demoStarted (3, 2000, Bid 0 ''alpha'' 10)) \<and>
   endTime (currentRound demoStarted) = 0 \<and>
   endTime (currentRound (apply_tx demoStarted (3, 2000, Bid 0 ''alpha'' 10))) = 5600"
  by (simp add: demoTwo_eq demoStarted_eq run_def evb)

lemma bid_round:
  assumes "bid sender now i w a s = Inr s'"
  shows "round_id (currentRound s') = round_id (currentRound s)"
  by (simp add: bid_state[OF assms])

lemma bid_cumulativeBids:
  assumes "bid sender now i w a s = Inr s'"
  shows "cumulativeBids s' = (cumulativeBids s)(round_id (currentRound s) :=
           (cumulativeBids s (round_id (currentRound s)))(i :=
             (cumulativeBids s (round_id (currentRound s)) i)(sender := bidCumulative sender i a s)))"
  by (simp add: bid_state[OF assms])

lemma bid_totalSpent:
  assumes "bid sender now i w a s = Inr s'"
  shows "totalSpent s' = (totalSpent s)(round_id (currentRound s) :=
           (totalSpent s (round_id (currentRound s)))(sender :=
              totalSpent s (round_id (currentRound s)) sender + a))"
  by (simp add: bid_state[OF assms])

text \<open>
  C8. Two successful bids of \<open>x\<close> then \<open>y\<close> by one participant on one slot, with nothing
  in between, leave the same cumulative totals, the same total spend, the same owner and
  the same highest total on that slot as one successful bid of \<open>x + y\<close> from the same
  state.
\<close>

theorem split_bid_same_outcome:
  assumes "bid p t1 i w1 x s = Inr s1"
    and "bid p t2 i w2 y s1 = Inr s2"
    and "bid p t3 i w3 (x + y) s = Inr s3"
  shows "cumulativeBids s2 = cumulativeBids s3 \<and>
         cumulativeBids s2 (round_id (currentRound s)) i p =
           cumulativeBids s (round_id (currentRound s)) i p + x + y \<and>
         totalSpent s2 = totalSpent s3 \<and>
         owner (slots s2 i) = owner (slots s3 i) \<and>
         highestTotal (slots s2 i) = highestTotal (slots s3 i)"
proof -
  note r1 = bid_round[OF assms(1)]
  have c1: "bidCumulative p i y s1 = bidCumulative p i (x + y) s"
    by (simp add: bidCumulative_def r1 bid_cumulativeBids[OF assms(1)])
  have "cumulativeBids s2 = cumulativeBids s3"
    by (simp add: bid_cumulativeBids[OF assms(2)] bid_cumulativeBids[OF assms(3)] r1 c1)
       (simp add: bid_cumulativeBids[OF assms(1)])
  moreover have "cumulativeBids s2 (round_id (currentRound s)) i p =
           cumulativeBids s (round_id (currentRound s)) i p + x + y"
    by (simp add: bid_cumulativeBids[OF assms(2)] r1 c1) (simp add: bidCumulative_def)
  moreover have "totalSpent s2 = totalSpent s3"
    by (simp add: bid_totalSpent[OF assms(2)] bid_totalSpent[OF assms(3)] r1)
       (simp add: bid_totalSpent[OF assms(1)] add.assoc)
  moreover have "owner (slots s2 i) = owner (slots s3 i) \<and>
         highestTotal (slots s2 i) = highestTotal (slots s3 i)"
    by (simp add: bid_slots[OF assms(2)] bid_slots[OF assms(3)] c1)
       (auto simp: bid_slots[OF assms(1)] bidCumulative_def)
  ultimately show ?thesis by blast
qed

theorem split_bid_same_outcome_witness:
  "bid 3 2200 0 ''x'' 5 demoTwo = Inr (apply_tx demoTwo (3, 2200, Bid 0 ''x'' 5)) \<and>
   bid 3 2300 0 ''y'' 10 (apply_tx demoTwo (3, 2200, Bid 0 ''x'' 5)) =
     Inr (run [(3, 2200, Bid 0 ''x'' 5), (3, 2300, Bid 0 ''y'' 10)] demoTwo) \<and>
   bid 3 2200 0 ''z'' (5 + 10) demoTwo = Inr (apply_tx demoTwo (3, 2200, Bid 0 ''z'' 15)) \<and>
   cumulativeBids (run [(3, 2200, Bid 0 ''x'' 5), (3, 2300, Bid 0 ''y'' 10)] demoTwo) 1 0 3 = 25 \<and>
   owner (slots (run [(3, 2200, Bid 0 ''x'' 5), (3, 2300, Bid 0 ''y'' 10)] demoTwo) 0) = 3 \<and>
   owner (slots (apply_tx demoTwo (3, 2200, Bid 0 ''z'' 15)) 0) = 3"
proof -
  have b1: "bid 3 2200 0 ''x'' 5 demoTwo = Inr (apply_tx demoTwo (3, 2200, Bid 0 ''x'' 5))"
    by (simp add: demoTwo_eq demoStarted_eq run_def evb)
  have b2: "bid 3 2300 0 ''y'' 10 (apply_tx demoTwo (3, 2200, Bid 0 ''x'' 5)) =
     Inr (run [(3, 2200, Bid 0 ''x'' 5), (3, 2300, Bid 0 ''y'' 10)] demoTwo)"
    by (simp add: demoTwo_eq demoStarted_eq run_def evb)
  have b3: "bid 3 2200 0 ''z'' (5 + 10) demoTwo = Inr (apply_tx demoTwo (3, 2200, Bid 0 ''z'' 15))"
    by (simp add: demoTwo_eq demoStarted_eq run_def evb)
  have r: "round_id (currentRound demoTwo) = 1" "cumulativeBids demoTwo 1 0 3 = 10"
    "owner (slots (apply_tx demoTwo (3, 2200, Bid 0 ''z'' 15)) 0) = 3"
    by (simp_all add: demoTwo_eq demoStarted_eq run_def evb)
  note t = split_bid_same_outcome[OF b1 b2 b3]
  from t have c: "cumulativeBids (run [(3, 2200, Bid 0 ''x'' 5), (3, 2300, Bid 0 ''y'' 10)] demoTwo)
      (round_id (currentRound demoTwo)) 0 3 =
      cumulativeBids demoTwo (round_id (currentRound demoTwo)) 0 3 + 5 + 10"
    by blast
  from t have "owner (slots (run [(3, 2200, Bid 0 ''x'' 5), (3, 2300, Bid 0 ''y'' 10)] demoTwo) 0) =
      owner (slots (apply_tx demoTwo (3, 2200, Bid 0 ''z'' 15)) 0)"
    by blast
  with c b1 b2 b3 r show ?thesis by simp
qed

lemma validateResolution_cases:
  "validateResolution now s =
     (if round_id (currentRound s) = 0 then Inl NoActiveRound
      else if resolved (currentRound s) then Inl RoundAlreadyResolved
      else if startedAt (currentRound s) = 0 then Inl RoundNotStarted
      else if now < endTime (currentRound s) then Inl RoundStillActive
      else Inr ())"
  by (simp add: validateResolution_def)

lemma resolution_error:
  assumes "isResolution c" and "authorized sender c s" and "validateResolution now s = Inl e"
  shows "exec sender now c s = Inl e"
  using assms
  by (cases c) (simp_all add: resolveRound_def refundSoloRound_def emergencyResolve_def
      onlyOracle_def onlyOwner_def)

lemma resolution_rejects_resolved:
  assumes "isResolution c" and "resolved (currentRound s)"
  shows "\<exists>e. exec sender now c s = Inl e"
proof (cases "exec sender now c s")
  case (Inl e)
  then show ?thesis by blast
next
  case (Inr s')
  from resolution_round[OF assms(1) Inr] assms(2) show ?thesis
    by (simp add: validateResolution_Inr)
qed

lemma settled_apply_tx:
  assumes "settled r s"
  shows "settled r (apply_tx s tx)"
proof (cases "round_id (currentRound (apply_tx s tx)) = round_id (currentRound s)")
  case True
  from apply_tx_same_round(2)[OF True] assms True show ?thesis
    by (auto simp: settled_def)
next
  case False
  with apply_tx_round[of s tx] assms show ?thesis
    by (auto simp: settled_def)
qed

lemma settled_no_resolutions:
  assumes "settled r s"
  shows "resolutions r txs s = 0"
  using assms
proof (induction txs arbitrary: s)
  case Nil
  then show ?case by simp
next
  case (Cons tx txs)
  obtain sender now c where tx: "tx = (sender, now, c)" by (cases tx)
  have "\<not> (isResolution c \<and> round_id (currentRound s) = r \<and> \<not> isl (exec sender now c s))"
  proof
    assume a: "isResolution c \<and> round_id (currentRound s) = r \<and> \<not> isl (exec sender now c s)"
    with Cons.prems have "resolved (currentRound s)" by (auto simp: settled_def)
    from resolution_rejects_resolved[OF _ this, of c sender now] a show False by auto
  qed
  with Cons.IH[OF settled_apply_tx[OF Cons.prems, of tx]] show ?case
    by (simp add: tx)
qed

lemma resolution_settles:
  assumes "isResolution c" and "exec sender now c s = Inr s'"
  shows "settled (round_id (currentRound s)) s'"
  using resolution_round[OF assms] by (auto simp: settled_def)

lemma resolutions_le_1: "resolutions r txs s \<le> 1"
proof (induction txs arbitrary: s)
  case Nil
  then show ?case by simp
next
  case (Cons tx txs)
  obtain sender now c where tx: "tx = (sender, now, c)" by (cases tx)
  show ?case
  proof (cases "isResolution c \<and> round_id (currentRound s) = r \<and> \<not> isl (exec sender now c s)")
    case True
    then obtain s' where s': "exec sender now c s = Inr s'" by (cases "exec sender now c s") auto
    with True have "settled r s'" using resolution_settles[of c sender now s s'] by simp
    then have "resolutions r txs s' = 0" by (rule settled_no_resolutions)
    with True s' show ?thesis by (simp add: tx apply_tx_def)
  next
    case False
    then have "resolutions r (tx # txs) s = resolutions r txs (apply_tx s tx)"
      unfolding tx by (simp only: resolutions.simps if_False add_0)
    with Cons.IH[of "apply_tx s tx"] show ?thesis by simp
  qed
qed

lemma settled_run:
  assumes "settled r s"
  shows "settled r (run txs s)"
  using assms
  by (induction txs arbitrary: s) (simp_all add: run_def settled_apply_tx)

lemma needMorePlayers:
  assumes "sender = oracleAddress s" and "validateResolution now s = Inr ()"
    and "length (roundPlayers s (round_id (currentRound s))) < 2"
  shows "resolveRound sender now ws us es s = Inl NeedMorePlayers"
  using assms by (simp add: resolveRound_def onlyOracle_def)

lemma hasMultiplePlayers:
  assumes "validateResolution now s = Inr ()"
    and "2 \<le> length (roundPlayers s (round_id (currentRound s)))"
  shows "refundSoloRound sender now s = Inl HasMultiplePlayers"
  using assms by (simp add: refundSoloRound_def)

text \<open>
  C4. A resolution path (\<open>resolveRound\<close>, \<open>refundSoloRound\<close>, \<open>emergencyResolve\<close>) that
  succeeds was called on a round that exists, has started, whose timer has expired and
  that was not resolved; for a caller that passes the path's access modifier the
  rejection is \<open>NoActiveRound\<close>, \<open>RoundAlreadyResolved\<close>, \<open>RoundNotStarted\<close> or
  \<open>RoundStillActive\<close>, tested in this order. After a path has succeeded on a round, a
  resolution call rejects in every later state in which that round is still the current
  one, whatever transactions came in between, so that along any list of transactions at
  most one resolution succeeds on a round. With the checks above passed,
  \<open>resolveRound\<close> rejects with \<open>NeedMorePlayers\<close> below 2 participants and
  \<open>refundSoloRound\<close> with \<open>HasMultiplePlayers\<close> from 2 on.
\<close>

theorem resolution_once:
  "(isResolution c \<and> exec sender now c s = Inr s' \<longrightarrow>
      round_id (currentRound s) > 0 \<and> startedAt (currentRound s) > 0 \<and>
      endTime (currentRound s) \<le> now \<and> \<not> resolved (currentRound s)) \<and>
   (isResolution c \<and> authorized sender c s \<longrightarrow>
      (round_id (currentRound s) = 0 \<longrightarrow> exec sender now c s = Inl NoActiveRound) \<and>
      (round_id (currentRound s) > 0 \<and> resolved (currentRound s) \<longrightarrow>
         exec sender now c s = Inl RoundAlreadyResolved) \<and>
      (round_id (currentRound s) > 0 \<and> \<not> resolved (currentRound s) \<and>
       startedAt (currentRound s) = 0 \<longrightarrow> exec sender now c s = Inl RoundNotStarted) \<and>
      (round_id (currentRound s) > 0 \<and> \<not> resolved (currentRound s) \<and>
       startedAt (currentRound s) > 0 \<and> now < endTime (currentRound s) \<longrightarrow>
         exec sender now c s = Inl RoundStillActive)) \<and>
   (isResolution c \<and> exec sender now c s = Inr s' \<and> isResolution c' \<and>
    round_id (currentRound (run txs s')) = round_id (currentRound s) \<longrightarrow>
      resolved (currentRound (run txs s')) \<and>
      (\<exists>e. exec sender' now' c' (run txs s') = Inl e) \<and>
      (authorized sender' c' (run txs s') \<longrightarrow>
         exec sender' now' c' (run txs s') = Inl RoundAlreadyResolved)) \<and>
   resolutions r txs s \<le> 1 \<and>
   (sender = oracleAddress s \<and> validateResolution now s = Inr () \<and>
    length (roundPlayers s (round_id (currentRound s))) < 2 \<longrightarrow>
      resolveRound sender now ws us es s = Inl NeedMorePlayers) \<and>
   (validateResolution now s = Inr () \<and>
    2 \<le> length (roundPlayers s (round_id (currentRound s))) \<longrightarrow>
      refundSoloRound sender now s = Inl HasMultiplePlayers)"
proof (intro conjI impI)
  assume "isResolution c \<and> exec sender now c s = Inr s'"
  then have "validateResolution now s = Inr ()"
    using resolution_round[of c sender now s s'] by blast
  then show "round_id (currentRound s) > 0" "startedAt (currentRound s) > 0"
    "endTime (currentRound s) \<le> now" "\<not> resolved (currentRound s)"
    by (simp_all add: validateResolution_Inr)
next
  assume a: "isResolution c \<and> authorized sender c s"
  {
    assume "round_id (currentRound s) = 0"
    then have "validateResolution now s = Inl NoActiveRound"
      by (simp add: validateResolution_cases)
    with a show "exec sender now c s = Inl NoActiveRound"
      by (simp add: resolution_error)
  }
  {
    assume "round_id (currentRound s) > 0 \<and> resolved (currentRound s)"
    then have "validateResolution now s = Inl RoundAlreadyResolved"
      by (simp add: validateResolution_cases)
    with a show "exec sender now c s = Inl RoundAlreadyResolved"
      by (simp add: resolution_error)
  }
  {
    assume "round_id (currentRound s) > 0 \<and> \<not> resolved (currentRound s) \<and>
       startedAt (currentRound s) = 0"
    then have "validateResolution now s = Inl RoundNotStarted"
      by (simp add: validateResolution_cases)
    with a show "exec sender now c s = Inl RoundNotStarted"
      by (simp add: resolution_error)
  }
  {
    assume "round_id (currentRound s) > 0 \<and> \<not> resolved (currentRound s) \<and>
       startedAt (currentRound s) > 0 \<and> now < endTime (currentRound s)"
    then have "validateResolution now s = Inl RoundStillActive"
      by (simp add: validateResolution_cases)
    with a show "exec sender now c s = Inl RoundStillActive"
      by (simp add: resolution_error)
  }
next
  assume a: "isResolution c \<and> exec sender now c s = Inr s' \<and> isResolution c' \<and>
    round_id (currentRound (run txs s')) = round_id (currentRound s)"
  then have "settled (round_id (currentRound s)) s'"
    using resolution_settles[of c sender now s s'] by blast
  then have "settled (round_id (currentRound s)) (run txs s')"
    by (rule settled_run)
  with a show res: "resolved (currentRound (run txs s'))"
    by (simp add: settled_def)
  from a res show "\<exists>e. exec sender' now' c' (run txs s') = Inl e"
    by (simp add: resolution_rejects_resolved)
  from a have pos: "round_id (currentRound (run txs s')) > 0"
    using resolution_round[of c sender now s s'] by (simp add: validateResolution_Inr)
  show "exec sender' now' c' (run txs s') = Inl RoundAlreadyResolved"
    if "authorized sender' c' (run txs s')"
  proof -
    from pos res have "validateResolution now' (run txs s') = Inl RoundAlreadyResolved"
      by (simp add: validateResolution_cases)
    with a that show ?thesis by (simp add: resolution_error)
  qed
next
  show "resolutions r txs s \<le> 1" by (rule resolutions_le_1)
next
  assume "sender = oracleAddress s \<and> validateResolution now s = Inr () \<and>
    length (roundPlayers s (round_id (currentRound s))) < 2"
  then show "resolveRound sender now ws us es s = Inl NeedMorePlayers"
    by (simp add: needMorePlayers)
next
  assume "validateResolution now s = Inr () \<and>
    2 \<le> length (roundPlayers s (round_id (currentRound s)))"
  then show "refundSoloRound sender now s = Inl HasMultiplePlayers"
    by (simp add: hasMultiplePlayers)
qed

lemmas evr = resolveRound_def refundSoloRound_def emergencyResolve_def emergencySoloRefund_def
  onlyOracle_def onlyOwner_def validateResolution_def autoAdvance_def setResolved_def
  usdcSafeTransfer_def ethCall_def ethPayout_def addDust_def MIN_AUTO_START_def
  EMERGENCY_TIMEOUT_def createRound_def

lemma demoOne_eq:
  "demoOne =
     \<lparr>thisAddress = 100, usdc = 200, contractOwner = 1, paused = False,
        minBid = 1, oracleAddress = 2, roundDuration = 3600,
        rakeBps = 500, splitBps = 5000, maxSlotsPerPlayer = 6,
        accumulatedRake = 0, nextPrizePool = 5, pendingEth = 0,
        currentRound =
          \<lparr>round_id = 1, createdAt = 1000, startedAt = 2000,
             endTime = 5600, prizePool = 105, ethPrizePool = 0,
             resolved = False\<rparr>,
        slots =
          (clearSlots (\<lambda>_. \<lparr>word = [], owner = 0, highestTotal = 0\<rparr>))
          (0 := \<lparr>word = ''alpha'', owner = 3, highestTotal = 10\<rparr>),
        cumulativeBids = (\<lambda>_ _ _. 0)(1 := (\<lambda>_ _. 0)(0 := (\<lambda>_. 0)(3 := 10))),
        totalSpent = (\<lambda>_ _. 0)(1 := (\<lambda>_. 0)(3 := 10)),
        playerSlotCount = (\<lambda>_ _. 0)(1 := (\<lambda>_. 0)(3 := 1)),
        roundPlayers = (\<lambda>_. [])(1 := [3]),
        isPlayer = (\<lambda>_ _. False)(1 := (\<lambda>_. False)(3 := True)),
        unclaimedEth = \<lambda>_. 0,
        usdcBal =
          (\<lambda>a. if a = 100 then 0 else 1000000000)
          (1 := 999999900, 3 := 999999990, 100 := 110),
        usdcAllowance = (\<lambda>_. 1000000000)(1 := 999999900, 3 := 999999990),
        usdcDenied = \<lambda>a. a = 0,
        ethBal = \<lambda>a. if a = 100 then 0 else 1000000000,
        ethRejects = \<lambda>a. a = 9\<rparr>"
  by (simp add: demoOne_def run_def demoStarted_eq evb)

theorem resolution_once_witness:
  "exec 2 6000 (ResolveRound [3, 4] [60, 50] []) demoTwo = Inr (apply_tx demoTwo demoResolve) \<and>
   round_id (currentRound demoTwo) = 1 \<and> startedAt (currentRound demoTwo) = 2000 \<and>
   endTime (currentRound demoTwo) = 5600 \<and> \<not> resolved (currentRound demoTwo) \<and>
   exec 2 5000 (ResolveRound [3, 4] [60, 50] []) demoTwo = Inl RoundStillActive \<and>
   exec 7 1500 RefundSoloRound demoStarted = Inl RoundNotStarted \<and>
   resolved (currentRound (run [(5, 6100, Fund 7)] (apply_tx demoTwo demoResolve))) \<and>
   exec 7 7000 RefundSoloRound (run [(5, 6100, Fund 7)] (apply_tx demoTwo demoResolve)) =
     Inl RoundAlreadyResolved \<and>
   resolutions 1 [demoResolve, (7, 7000, RefundSoloRound)] demoTwo \<le> 1 \<and>
   resolveRound 2 6000 [3] [100] [] demoOne = Inl NeedMorePlayers \<and>
   refundSoloRound 7 6000 demoTwo = Inl HasMultiplePlayers"
proof -
  have ok: "exec 2 6000 (ResolveRound [3, 4] [60, 50] []) demoTwo = Inr (apply_tx demoTwo demoResolve)"
    by (simp add: demoResolve_def demoTwo_eq evb evr)
  have same: "round_id (currentRound (run [(5, 6100, Fund 7)] (apply_tx demoTwo demoResolve))) =
      round_id (currentRound demoTwo)"
    by (simp add: demoResolve_def demoTwo_eq run_def evb evr fund_def)
  have v2: "validateResolution 6000 demoTwo = Inr ()" "validateResolution 6000 demoOne = Inr ()"
    by (simp_all add: demoTwo_eq demoOne_eq validateResolution_def)
  have f: "round_id (currentRound demoTwo) = 1" "startedAt (currentRound demoTwo) = 2000"
    "endTime (currentRound demoTwo) = 5600" "\<not> resolved (currentRound demoTwo)"
    "oracleAddress demoTwo = 2" "oracleAddress demoOne = 2"
    "roundPlayers demoTwo 1 = [3, 4]" "roundPlayers demoOne 1 = [3]"
    "round_id (currentRound demoOne) = 1"
    "round_id (currentRound demoStarted) = 1" "startedAt (currentRound demoStarted) = 0"
    "\<not> resolved (currentRound demoStarted)"
    by (simp_all add: demoTwo_eq demoOne_eq demoStarted_eq)
  note t1 = resolution_once[where c = "ResolveRound [3, 4] [60, 50] []" and sender = 2
      and now = 6000 and s = demoTwo and s' = "apply_tx demoTwo demoResolve"
      and c' = RefundSoloRound and txs = "[(5, 6100, Fund 7)]" and sender' = 7 and now' = 7000
      and r = 1 and ws = "[3]" and us = "[100]" and es = "[]"]
  note t2 = resolution_once[where c = "ResolveRound [3, 4] [60, 50] []" and sender = 2
      and now = 5000 and s = demoTwo]
  note t3 = resolution_once[where c = RefundSoloRound and sender = 7
      and now = 1500 and s = demoStarted]
  note t4 = resolution_once[where sender = 2 and now = 6000 and s = demoOne and ws = "[3]"
      and us = "[100]" and es = "[]"]
  note t5 = resolution_once[where r = 1 and txs = "[demoResolve, (7, 7000, RefundSoloRound)]"
      and s = demoTwo]
  from t1 ok same have a: "resolved (currentRound (run [(5, 6100, Fund 7)] (apply_tx demoTwo demoResolve)))"
    "exec 7 7000 RefundSoloRound (run [(5, 6100, Fund 7)] (apply_tx demoTwo demoResolve)) =
     Inl RoundAlreadyResolved"
    by simp_all
  note t6 = resolution_once[where sender = 7 and now = 6000 and s = demoTwo]
  from t6 v2 f have b: "refundSoloRound 7 6000 demoTwo = Inl HasMultiplePlayers"
    by simp
  from t2 f have c: "exec 2 5000 (ResolveRound [3, 4] [60, 50] []) demoTwo = Inl RoundStillActive"
    by simp
  from t3 f have d: "exec 7 1500 RefundSoloRound demoStarted = Inl RoundNotStarted"
    by simp
  from t4 v2 f have e: "resolveRound 2 6000 [3] [100] [] demoOne = Inl NeedMorePlayers"
    by simp
  from t5 have g: "resolutions 1 [demoResolve, (7, 7000, RefundSoloRound)] demoTwo \<le> 1"
    by blast
  from ok f a b c d e g show ?thesis by simp
qed

text \<open>
  C10. Ether sent to the contract is accepted whatever the time and whether or not the
  contract is paused (\<open>receive\<close> reads neither), provided the sender holds the ether and
  the pool it is added to stays below \<open>2 ^ 256\<close> (amounts of ether are far below that).
  While a round exists and is unresolved, also after its timer has expired, the value
  goes to that round's \<open>ethPrizePool\<close>; with no round, or a resolved one, it goes to
  \<open>pendingEth\<close>. \<open>fund\<close> on an unresolved round whose timer has expired always rejects,
  with \<open>RoundEnded\<close> unless the contract is paused.
\<close>

theorem receive_always_accepts:
  assumes "v \<le> ethBal s sender"
    and "ethPrizePool (currentRound s) + v \<le> MAX_UINT256"
    and "pendingEth s + v \<le> MAX_UINT256"
  shows "(\<exists>s'. receive sender v s = Inr s' \<and>
            (round_id (currentRound s) > 0 \<and> \<not> resolved (currentRound s) \<longrightarrow>
               ethPrizePool (currentRound s') = ethPrizePool (currentRound s) + v \<and>
               pendingEth s' = pendingEth s) \<and>
            (round_id (currentRound s) = 0 \<or> resolved (currentRound s) \<longrightarrow>
               pendingEth s' = pendingEth s + v \<and>
               ethPrizePool (currentRound s') = ethPrizePool (currentRound s)) \<and>
            (sender \<noteq> thisAddress s \<longrightarrow>
               ethBal s' (thisAddress s) = ethBal s (thisAddress s) + v)) \<and>
         (round_id (currentRound s) > 0 \<and> \<not> resolved (currentRound s) \<and>
          startedAt (currentRound s) > 0 \<and> endTime (currentRound s) \<le> now \<longrightarrow>
            (\<exists>e. fund funder now amount s = Inl e) \<and>
            (\<not> paused s \<longrightarrow> fund funder now amount s = Inl RoundEnded))"
  using assms
  by (auto simp: receive_def fund_def whenNotPaused_def Let_def add256_def)

theorem receive_always_accepts_witness:
  "receive 5 1000 demoTwo = Inr (apply_tx demoTwo (5, 6000, Receive 1000)) \<and>
   endTime (currentRound demoTwo) = 5600 \<and>
   ethPrizePool (currentRound (apply_tx demoTwo (5, 6000, Receive 1000))) = 1000 \<and>
   pendingEth (apply_tx demoTwo (5, 6000, Receive 1000)) = 0 \<and>
   fund 5 6000 7 demoTwo = Inl RoundEnded \<and>
   receive 5 1000 deployed = Inr (apply_tx deployed (5, 6000, Receive 1000)) \<and>
   pendingEth (apply_tx deployed (5, 6000, Receive 1000)) = 1000"
proof -
  have h: "(1000::nat) \<le> ethBal demoTwo 5" 
    "ethPrizePool (currentRound demoTwo) + 1000 \<le> MAX_UINT256"
    "pendingEth demoTwo + 1000 \<le> MAX_UINT256"
    by (simp_all add: demoTwo_eq MAX_UINT256_def)
  have h': "(1000::nat) \<le> ethBal deployed 5" 
    "ethPrizePool (currentRound deployed) + 1000 \<le> MAX_UINT256"
    "pendingEth deployed + 1000 \<le> MAX_UINT256"
    by (simp_all add: deployed_def constructor_def world0_def MAX_RAKE_BPS_def MAX_UINT256_def)
  have f: "round_id (currentRound demoTwo) = 1" "\<not> resolved (currentRound demoTwo)"
    "startedAt (currentRound demoTwo) = 2000" "endTime (currentRound demoTwo) = 5600"
    "\<not> paused demoTwo" "pendingEth demoTwo = 0" "ethPrizePool (currentRound demoTwo) = 0"
    by (simp_all add: demoTwo_eq)
  have f': "round_id (currentRound deployed) = 0" "pendingEth deployed = 0"
    by (simp_all add: deployed_def constructor_def world0_def MAX_RAKE_BPS_def)
  from receive_always_accepts[OF h, of 6000 5 7] f
  have a: "receive 5 1000 demoTwo = Inr (apply_tx demoTwo (5, 6000, Receive 1000))"
    "ethPrizePool (currentRound (apply_tx demoTwo (5, 6000, Receive 1000))) = 1000"
    "pendingEth (apply_tx demoTwo (5, 6000, Receive 1000)) = 0"
    "fund 5 6000 7 demoTwo = Inl RoundEnded"
    by (auto simp: apply_tx_def)
  from receive_always_accepts[OF h', of 6000 5 7] f'
  have b: "receive 5 1000 deployed = Inr (apply_tx deployed (5, 6000, Receive 1000))"
    "pendingEth (apply_tx deployed (5, 6000, Receive 1000)) = 1000"
    by (auto simp: apply_tx_def)
  from a b f show ?thesis by simp
qed

lemma sumLoop_Inr: "sumLoop xs a = Inr t \<Longrightarrow> t = a + sum_list xs"
proof (induction xs arbitrary: a)
  case Nil
  then show ?case by simp
next
  case (Cons x xs)
  from Cons.prems have "sumLoop xs (a + x) = Inr t"
    by (auto simp: bindE_eq_Inr add256_Inr)
  from Cons.IH[OF this] show ?case by simp
qed

lemma sumLoop_fits: "a + sum_list xs \<le> MAX_UINT256 \<Longrightarrow> sumLoop xs a = Inr (a + sum_list xs)"
  by (induction xs arbitrary: a) (auto simp: add256_def add.assoc)

lemma sumLoop_Inl: "sumLoop xs a = Inl e \<Longrightarrow> e = Panic"
  by (induction xs arbitrary: a) (auto simp: bindE_def add256_def split: if_splits)

lemma resolveRound_sums:
  assumes "resolveRound sender now ws us es s = Inr s'"
  shows "sum_list us = distributableOf s"
    and "ethPrizePool (currentRound s) > 0 \<Longrightarrow> sum_list es = ethPrizePool (currentRound s)"
proof -
  from assms obtain s2 where
    u: "sumLoop us 0 = Inr (distributableOf s)"
    and p: "payUsdc (zip ws us) (s\<lparr>accumulatedRake := accumulatedRake s + rakeOf s\<rparr>) = Inr s2"
    and e: "ethPrizePool (currentRound s2) > 0 \<Longrightarrow> sumLoop es 0 = Inr (ethPrizePool (currentRound s2))"
    by (auto simp: resolveRound_def Let_def bindE_eq_Inr add256_Inr sub256_Inr mul256_Inr
        distributableOf_def rakeOf_def split: if_splits)
  from sumLoop_Inr[OF u] show "sum_list us = distributableOf s" by simp
  from payUsdc_frame[OF p] have "currentRound s2 = currentRound s" by auto
  with e sumLoop_Inr[of es 0] show "sum_list es = ethPrizePool (currentRound s)"
    if "ethPrizePool (currentRound s) > 0" using that by auto
qed

lemma resolveRound_usdc_mismatch:
  assumes "sender = oracleAddress s" and "validateResolution now s = Inr ()"
    and "2 \<le> length (roundPlayers s (round_id (currentRound s)))"
    and "rakeFits s"
    and "length ws \<noteq> length us \<or> (sum_list us \<le> MAX_UINT256 \<and> sum_list us \<noteq> distributableOf s)"
  shows "resolveRound sender now ws us es s = Inl AllocationMismatch"
  using assms sumLoop_fits[of 0 us]
  by (auto simp: resolveRound_def onlyOracle_def Let_def rakeFits_def rakeOf_def
      distributableOf_def mul256_def sub256_def add256_def)

lemma resolveRound_eth_mismatch:
  assumes "sender = oracleAddress s" and "validateResolution now s = Inr ()"
    and "2 \<le> length (roundPlayers s (round_id (currentRound s)))"
    and "rakeFits s"
    and "length ws = length us" and "sum_list us = distributableOf s"
    and p: "payUsdc (zip ws us) (s\<lparr>accumulatedRake := accumulatedRake s + rakeOf s\<rparr>) = Inr s2"
    and "ethPrizePool (currentRound s) > 0"
    and "length es \<noteq> length ws \<or>
         (sum_list es \<le> MAX_UINT256 \<and> sum_list es \<noteq> ethPrizePool (currentRound s))"
  shows "resolveRound sender now ws us es s = Inl AllocationMismatch"
proof -
  from payUsdc_frame[OF p] have c: "currentRound s2 = currentRound s" by auto
  have d: "distributableOf s \<le> MAX_UINT256"
    using assms(4) by (auto simp: rakeFits_def distributableOf_def)
  show ?thesis
    using assms(1-6,8,9) sumLoop_fits[of 0 us] sumLoop_fits[of 0 es] d
    by (auto simp: resolveRound_def onlyOracle_def Let_def rakeFits_def rakeOf_def
      distributableOf_def mul256_def sub256_def add256_def p[unfolded rakeOf_def] c)
qed

lemma demoTwoEth_eq:
  "demoTwoEth =
     demoTwo\<lparr>currentRound := (currentRound demoTwo)\<lparr>ethPrizePool := 1000\<rparr>,
             ethBal := (\<lambda>a. if a = 100 then 0 else 1000000000)(5 := 999999000, 100 := 1000)\<rparr>"
  by (simp add: demoTwoEth_def demoTwo_eq apply_tx_def receive_def bindE_def add256_def
      MAX_UINT256_def Let_def)




lemma credited_simps [simp]:
  "credited w [] = 0"
  "credited w ((w', a) # xs) = (if w' = w then a else 0) + credited w xs"
  by (simp_all add: credited_def)

lemma ethPayout_cases:
  assumes "unclaimedEth s w + a \<le> MAX_UINT256"
  shows "ethPayout w a s =
           Inr (if ethBal s (thisAddress s) < a \<or> ethRejects s w
                then s\<lparr>unclaimedEth := (unclaimedEth s)(w := unclaimedEth s w + a)\<rparr>
                else s\<lparr>ethBal := ((ethBal s)(thisAddress s := ethBal s (thisAddress s) - a))(w :=
                        ((ethBal s)(thisAddress s := ethBal s (thisAddress s) - a)) w + a)\<rparr>)"
  using assms by (simp add: ethPayout_def ethCall_def Let_def add256_def)

lemma ethPayout_conserves:
  assumes "unclaimedEth s w + a \<le> MAX_UINT256"
  shows "\<exists>s'. ethPayout w a s = Inr s' \<and> thisAddress s' = thisAddress s \<and>
           ethRejects s' = ethRejects s \<and>
           (\<forall>v. unclaimedEth s' v \<le> unclaimedEth s v + (if v = w then a else 0)) \<and>
           (\<forall>v. unclaimedEth s v \<le> unclaimedEth s' v) \<and>
           (\<forall>v. v \<noteq> thisAddress s \<longrightarrow>
              ethBal s' v + unclaimedEth s' v =
              ethBal s v + unclaimedEth s v + (if v = w then a else 0)) \<and>
           (ethRejects s w \<longrightarrow> ethBal s' = ethBal s \<and> unclaimedEth s' w = unclaimedEth s w + a)"
  unfolding ethPayout_cases[OF assms] by auto

lemma payEth_conserves:
  assumes "\<forall>v. unclaimedEth s v + sum_list (map snd xs) \<le> MAX_UINT256"
  shows "\<exists>s'. payEth xs s = Inr s' \<and> thisAddress s' = thisAddress s \<and>
           (\<forall>v. unclaimedEth s v \<le> unclaimedEth s' v) \<and>
           (\<forall>v. v \<noteq> thisAddress s \<longrightarrow>
              ethBal s' v + unclaimedEth s' v = ethBal s v + unclaimedEth s v + credited v xs) \<and>
           (\<forall>v. ethRejects s v \<longrightarrow> v \<noteq> thisAddress s \<longrightarrow>
              ethBal s' v = ethBal s v \<and> unclaimedEth s' v = unclaimedEth s v + credited v xs)"
  using assms
proof (induction xs arbitrary: s)
  case Nil
  then show ?case by simp
next
  case (Cons x xs)
  obtain w a where x: "x = (w, a)" by (cases x)
  have fit: "unclaimedEth s w + a \<le> MAX_UINT256"
    using Cons.prems[rule_format, of w] by (simp add: x)
  obtain s1 where s1: "(if a > 0 then ethPayout w a s else Inr s) = Inr s1"
    and t1: "thisAddress s1 = thisAddress s" and r1: "ethRejects s1 = ethRejects s"
    and u1: "\<forall>v. unclaimedEth s1 v \<le> unclaimedEth s v + (if v = w then a else 0)"
    and m1: "\<forall>v. unclaimedEth s v \<le> unclaimedEth s1 v"
    and c1: "\<forall>v. v \<noteq> thisAddress s \<longrightarrow>
              ethBal s1 v + unclaimedEth s1 v =
              ethBal s v + unclaimedEth s v + (if v = w then a else 0)"
    and j1: "ethRejects s w \<longrightarrow> a > 0 \<longrightarrow> ethBal s1 = ethBal s \<and> unclaimedEth s1 w = unclaimedEth s w + a"
    and k1: "\<forall>v. v \<noteq> w \<longrightarrow> v \<noteq> thisAddress s \<longrightarrow> ethRejects s v \<longrightarrow> ethBal s1 v = ethBal s v"
  proof (cases "a > 0")
    case True
    from ethPayout_conserves[OF fit] obtain s1 where
      p: "ethPayout w a s = Inr s1" "thisAddress s1 = thisAddress s" "ethRejects s1 = ethRejects s"
      "\<forall>v. unclaimedEth s1 v \<le> unclaimedEth s v + (if v = w then a else 0)"
      "\<forall>v. unclaimedEth s v \<le> unclaimedEth s1 v"
      "\<forall>v. v \<noteq> thisAddress s \<longrightarrow>
              ethBal s1 v + unclaimedEth s1 v =
              ethBal s v + unclaimedEth s v + (if v = w then a else 0)"
      "ethRejects s w \<longrightarrow> ethBal s1 = ethBal s \<and> unclaimedEth s1 w = unclaimedEth s w + a"
      by blast
    have "\<forall>v. v \<noteq> w \<longrightarrow> v \<noteq> thisAddress s \<longrightarrow> ethRejects s v \<longrightarrow> ethBal s1 v = ethBal s v"
    proof (intro allI impI)
      fix v assume v: "v \<noteq> w" "v \<noteq> thisAddress s"
      from p(4)[rule_format, of v] p(5)[rule_format, of v] v
      have "unclaimedEth s1 v = unclaimedEth s v" by simp
      with p(6)[rule_format, of v] v show "ethBal s1 v = ethBal s v" by simp
    qed
    with p True show ?thesis by (intro that[of s1]) auto
  next
    case False
    then show ?thesis by (intro that[of s]) auto
  qed
  have "\<forall>v. unclaimedEth s1 v + sum_list (map snd xs) \<le> MAX_UINT256"
  proof
    fix v
    from u1[rule_format, of v] Cons.prems[rule_format, of v]
    show "unclaimedEth s1 v + sum_list (map snd xs) \<le> MAX_UINT256"
      by (simp add: x split: if_splits)
  qed
  from Cons.IH[OF this] obtain s' where
    p: "payEth xs s1 = Inr s'" "thisAddress s' = thisAddress s1"
    and m: "\<forall>v. unclaimedEth s1 v \<le> unclaimedEth s' v"
    and c: "\<forall>v. v \<noteq> thisAddress s1 \<longrightarrow>
              ethBal s' v + unclaimedEth s' v = ethBal s1 v + unclaimedEth s1 v + credited v xs"
    and j: "\<forall>v. ethRejects s1 v \<longrightarrow> v \<noteq> thisAddress s1 \<longrightarrow>
              ethBal s' v = ethBal s1 v \<and> unclaimedEth s' v = unclaimedEth s1 v + credited v xs"
    by blast
  have "payEth (x # xs) s = Inr s'"
    using s1 p(1) by (simp add: x)
  moreover have "thisAddress s' = thisAddress s" by (simp add: p(2) t1)
  moreover have "\<forall>v. unclaimedEth s v \<le> unclaimedEth s' v"
    using m1 m by (meson le_trans)
  moreover have "\<forall>v. v \<noteq> thisAddress s \<longrightarrow>
              ethBal s' v + unclaimedEth s' v = ethBal s v + unclaimedEth s v + credited v (x # xs)"
    using c c1 by (simp add: t1 x)
  moreover have "\<forall>v. ethRejects s v \<longrightarrow> v \<noteq> thisAddress s \<longrightarrow>
              ethBal s' v = ethBal s v \<and> unclaimedEth s' v = unclaimedEth s v + credited v (x # xs)"
  proof (intro allI impI)
    fix v assume v: "ethRejects s v" "v \<noteq> thisAddress s"
    from j[rule_format, of v] v have e: "ethBal s' v = ethBal s1 v"
      "unclaimedEth s' v = unclaimedEth s1 v + credited v xs"
      by (simp_all add: r1 t1)
    show "ethBal s' v = ethBal s v \<and> unclaimedEth s' v = unclaimedEth s v + credited v (x # xs)"
    proof (cases "v = w")
      case True
      show ?thesis
      proof (cases "a > 0")
        case True
        with j1 v \<open>v = w\<close> e show ?thesis by (simp add: x)
      next
        case False
        with s1 have "s1 = s" by simp
        with e False show ?thesis by (simp add: x)
      qed
    next
      case False
      from k1[rule_format, of v] False v have b: "ethBal s1 v = ethBal s v" by simp
      from c1[rule_format, of v] False v b have "unclaimedEth s1 v = unclaimedEth s v" by simp
      with e b False show ?thesis by (simp add: x)
    qed
  qed
  ultimately show ?case by blast
qed

lemma outflow_simps [simp]:
  "outflow t [] = 0"
  "outflow t ((w, a) # xs) = (if w = t then 0 else a) + outflow t xs"
  by (simp_all add: outflow_def)

lemma parts_simps [simp]:
  "usdcPart [] = []" "ethPart [] = []"
  "usdcPart ((w, u, e) # xs) = (w, u) # usdcPart xs"
  "ethPart ((w, u, e) # xs) = (w, e) # ethPart xs"
  by (simp_all add: usdcPart_def ethPart_def)

lemma usdcStep_effect:
  assumes "(if u > 0 then usdcSafeTransfer w u s else Inr s) = Inr s0"
  shows "thisAddress s0 = thisAddress s" "ethBal s0 = ethBal s" "unclaimedEth s0 = unclaimedEth s"
    "ethRejects s0 = ethRejects s" "usdcDenied s0 = usdcDenied s"
    "v \<noteq> thisAddress s \<Longrightarrow> usdcBal s0 v = usdcBal s v + (if v = w then u else 0)"
    "usdcBal s0 (thisAddress s) + (if w = thisAddress s then 0 else u) = usdcBal s (thisAddress s)"
    "u > 0 \<Longrightarrow> \<not> usdcDenied s w"
proof -
  have eq: "s0 = (if u > 0
                  then s\<lparr>usdcBal := ((usdcBal s)(thisAddress s := usdcBal s (thisAddress s) - u))(w :=
                         ((usdcBal s)(thisAddress s := usdcBal s (thisAddress s) - u)) w + u)\<rparr>
                  else s)"
    and le: "u > 0 \<Longrightarrow> u \<le> usdcBal s (thisAddress s)"
    and den: "u > 0 \<Longrightarrow> \<not> usdcDenied s w"
    using assms usdcSafeTransfer_Inr[of w u s s0] by (cases "u > 0"; simp)+
  show "thisAddress s0 = thisAddress s" "ethBal s0 = ethBal s" "unclaimedEth s0 = unclaimedEth s"
    "ethRejects s0 = ethRejects s" "usdcDenied s0 = usdcDenied s"
    by (simp_all add: eq)
  show "usdcBal s0 v = usdcBal s v + (if v = w then u else 0)" if "v \<noteq> thisAddress s"
    using that by (simp add: eq)
  show "usdcBal s0 (thisAddress s) + (if w = thisAddress s then 0 else u) = usdcBal s (thisAddress s)"
    using le by (simp add: eq)
  show "\<not> usdcDenied s w" if "u > 0"
    using that by (rule den)
qed

lemma ethPayout_Inr:
  assumes "ethPayout w a s = Inr s'"
  shows "s' = (if ethBal s (thisAddress s) < a \<or> ethRejects s w
                then s\<lparr>unclaimedEth := (unclaimedEth s)(w := unclaimedEth s w + a)\<rparr>
                else s\<lparr>ethBal := ((ethBal s)(thisAddress s := ethBal s (thisAddress s) - a))(w :=
                        ((ethBal s)(thisAddress s := ethBal s (thisAddress s) - a)) w + a)\<rparr>)"
proof (cases "ethBal s (thisAddress s) < a \<or> ethRejects s w")
  case True
  then have "ethCall w a s = (False, s)" by (simp add: ethCall_def)
  with assms True show ?thesis
    by (simp add: ethPayout_def bindE_eq_Inr add256_Inr)
next
  case False
  then have "ethCall w a s = (True, s\<lparr>ethBal := ((ethBal s)(thisAddress s := ethBal s (thisAddress s) - a))(w :=
                        ((ethBal s)(thisAddress s := ethBal s (thisAddress s) - a)) w + a)\<rparr>)"
    by (simp add: ethCall_def Let_def)
  with assms False show ?thesis
    by (simp add: ethPayout_def)
qed

lemma ethStep_effect:
  assumes "(if e > 0 then ethPayout w e s else Inr s) = Inr s1"
  shows "thisAddress s1 = thisAddress s" "usdcBal s1 = usdcBal s" "usdcDenied s1 = usdcDenied s"
    "ethRejects s1 = ethRejects s"
    "unclaimedEth s v \<le> unclaimedEth s1 v"
    "v \<noteq> thisAddress s \<Longrightarrow>
       ethBal s1 v + unclaimedEth s1 v = ethBal s v + unclaimedEth s v + (if v = w then e else 0)"
    "ethRejects s v \<Longrightarrow> v \<noteq> thisAddress s \<Longrightarrow>
       ethBal s1 v = ethBal s v \<and> unclaimedEth s1 v = unclaimedEth s v + (if v = w then e else 0)"
proof -
  have eq: "s1 = (if e > 0 then
                   (if ethBal s (thisAddress s) < e \<or> ethRejects s w
                    then s\<lparr>unclaimedEth := (unclaimedEth s)(w := unclaimedEth s w + e)\<rparr>
                    else s\<lparr>ethBal := ((ethBal s)(thisAddress s := ethBal s (thisAddress s) - e))(w :=
                        ((ethBal s)(thisAddress s := ethBal s (thisAddress s) - e)) w + e)\<rparr>)
                  else s)"
    using assms ethPayout_Inr[of w e s s1] by (cases "e > 0") simp_all
  show "thisAddress s1 = thisAddress s" "usdcBal s1 = usdcBal s" "usdcDenied s1 = usdcDenied s"
    "ethRejects s1 = ethRejects s"
    "unclaimedEth s v \<le> unclaimedEth s1 v"
    by (simp_all add: eq)
  show "ethBal s1 v + unclaimedEth s1 v = ethBal s v + unclaimedEth s v + (if v = w then e else 0)"
    if "v \<noteq> thisAddress s"
    using that by (auto simp: eq)
  show "ethBal s1 v = ethBal s v \<and> unclaimedEth s1 v = unclaimedEth s v + (if v = w then e else 0)"
    if "ethRejects s v" "v \<noteq> thisAddress s"
    using that by (auto simp: eq)
qed

lemma payBoth_effect:
  assumes "payBoth xs s = Inr s'"
  shows "thisAddress s' = thisAddress s \<and> ethRejects s' = ethRejects s \<and>
         usdcDenied s' = usdcDenied s \<and>
         (\<forall>v. v \<noteq> thisAddress s \<longrightarrow> usdcBal s' v = usdcBal s v + credited v (usdcPart xs)) \<and>
         usdcBal s' (thisAddress s) + outflow (thisAddress s) (usdcPart xs) = usdcBal s (thisAddress s) \<and>
         (\<forall>v. unclaimedEth s v \<le> unclaimedEth s' v) \<and>
         (\<forall>v. v \<noteq> thisAddress s \<longrightarrow>
            ethBal s' v + unclaimedEth s' v = ethBal s v + unclaimedEth s v + credited v (ethPart xs)) \<and>
         (\<forall>v. ethRejects s v \<longrightarrow> v \<noteq> thisAddress s \<longrightarrow>
            ethBal s' v = ethBal s v \<and>
            unclaimedEth s' v = unclaimedEth s v + credited v (ethPart xs))"
  using assms
proof (induction xs arbitrary: s)
  case Nil
  then show ?case by simp
next
  case (Cons x xs)
  obtain w u e where x: "x = (w, u, e)" by (cases x)
  from Cons.prems obtain s0 s1 where
    a: "(if u > 0 then usdcSafeTransfer w u s else Inr s) = Inr s0"
    and b: "(if e > 0 then ethPayout w e s0 else Inr s0) = Inr s1"
    and c: "payBoth xs s1 = Inr s'"
    by (auto simp: x bindE_eq_Inr)
  note A = usdcStep_effect[OF a]
  note B = ethStep_effect[OF b]
  note I = Cons.IH[OF c]
  note I1 = I[THEN conjunct1]
  note I2 = I[THEN conjunct2, THEN conjunct1]
  note I3 = I[THEN conjunct2, THEN conjunct2, THEN conjunct1]
  note I4 = I[THEN conjunct2, THEN conjunct2, THEN conjunct2, THEN conjunct1, rule_format]
  note I5 = I[THEN conjunct2, THEN conjunct2, THEN conjunct2, THEN conjunct2, THEN conjunct1]
  note I6 = I[THEN conjunct2, THEN conjunct2, THEN conjunct2, THEN conjunct2, THEN conjunct2,
      THEN conjunct1, rule_format]
  note I7 = I[THEN conjunct2, THEN conjunct2, THEN conjunct2, THEN conjunct2, THEN conjunct2,
      THEN conjunct2, THEN conjunct1, rule_format]
  note I8 = I[THEN conjunct2, THEN conjunct2, THEN conjunct2, THEN conjunct2, THEN conjunct2,
      THEN conjunct2, THEN conjunct2, rule_format]
  have t: "thisAddress s1 = thisAddress s" by (simp add: A(1) B(1))
  have r: "ethRejects s1 = ethRejects s" by (simp add: A(4) B(4))
  have h1: "thisAddress s' = thisAddress s" by (simp add: I1 t)
  have h2: "ethRejects s' = ethRejects s" by (simp add: I2 r)
  have h3: "usdcDenied s' = usdcDenied s" by (simp add: I3 A(5) B(3))
  have h4: "\<forall>v. v \<noteq> thisAddress s \<longrightarrow> usdcBal s' v = usdcBal s v + credited v (usdcPart (x # xs))"
  proof (intro allI impI)
    fix v assume v: "v \<noteq> thisAddress s"
    then have "v \<noteq> thisAddress s1" by (simp add: t)
    from I4[OF this] have "usdcBal s' v = usdcBal s1 v + credited v (usdcPart xs)" .
    then show "usdcBal s' v = usdcBal s v + credited v (usdcPart (x # xs))"
      by (simp add: A(6)[OF v] B(2) x)
  qed
  have h5: "usdcBal s' (thisAddress s) + outflow (thisAddress s) (usdcPart (x # xs)) =
      usdcBal s (thisAddress s)"
  proof -
    from I5 have "usdcBal s' (thisAddress s) + outflow (thisAddress s) (usdcPart xs) =
        usdcBal s0 (thisAddress s)" by (simp add: t B(2))
    with A(7) show ?thesis by (simp add: x)
  qed
  have h6: "\<forall>v. unclaimedEth s v \<le> unclaimedEth s' v"
  proof
    fix v
    from I6[of v] B(5)[of v] show "unclaimedEth s v \<le> unclaimedEth s' v"
      by (simp add: A(3))
  qed
  have h7: "\<forall>v. v \<noteq> thisAddress s \<longrightarrow>
            ethBal s' v + unclaimedEth s' v =
            ethBal s v + unclaimedEth s v + credited v (ethPart (x # xs))"
  proof (intro allI impI)
    fix v assume v: "v \<noteq> thisAddress s"
    then have v1: "v \<noteq> thisAddress s1" and v0: "v \<noteq> thisAddress s0" by (simp_all add: t A(1))
    from I7[OF v1] have "ethBal s' v + unclaimedEth s' v =
        ethBal s1 v + unclaimedEth s1 v + credited v (ethPart xs)" .
    moreover from B(6)[OF v0] have "ethBal s1 v + unclaimedEth s1 v =
        ethBal s v + unclaimedEth s v + (if v = w then e else 0)" by (simp add: A(2,3))
    ultimately show "ethBal s' v + unclaimedEth s' v =
            ethBal s v + unclaimedEth s v + credited v (ethPart (x # xs))"
      by (simp add: x)
  qed
  have h8: "\<forall>v. ethRejects s v \<longrightarrow> v \<noteq> thisAddress s \<longrightarrow>
            ethBal s' v = ethBal s v \<and>
            unclaimedEth s' v = unclaimedEth s v + credited v (ethPart (x # xs))"
  proof (intro allI impI)
    fix v assume v: "ethRejects s v" "v \<noteq> thisAddress s"
    then have v1: "ethRejects s1 v" "v \<noteq> thisAddress s1"
      and v0: "ethRejects s0 v" "v \<noteq> thisAddress s0" by (simp_all add: t r A(1,4))
    from I8[OF v1] have "ethBal s' v = ethBal s1 v \<and>
        unclaimedEth s' v = unclaimedEth s1 v + credited v (ethPart xs)" .
    moreover from B(7)[OF v0] have "ethBal s1 v = ethBal s v \<and>
        unclaimedEth s1 v = unclaimedEth s v + (if v = w then e else 0)" by (simp add: A(2,3))
    ultimately show "ethBal s' v = ethBal s v \<and>
            unclaimedEth s' v = unclaimedEth s v + credited v (ethPart (x # xs))"
      by (simp add: x)
  qed
  show ?case
    by (intro conjI) (fact h1, fact h2, fact h3, fact h4, fact h5, fact h6, fact h7, fact h8)
qed

lemma payUsdc_payBoth: "payUsdc xs s = payBoth (map (\<lambda>(w, u). (w, u, 0)) xs) s"
  by (induction xs arbitrary: s) (auto simp: bindE_def split: sum.splits)

lemma payEth_payBoth: "payEth xs s = payBoth (map (\<lambda>(w, e). (w, 0, e)) xs) s"
  by (induction xs arbitrary: s) (auto simp: bindE_def split: sum.splits)

lemma usdcPart_usdc [simp]: "usdcPart (map (\<lambda>(w, u). (w, u, 0)) xs) = xs"
  by (induction xs) auto

lemma ethPart_eth [simp]: "ethPart (map (\<lambda>(w, e). (w, 0, e)) xs) = xs"
  by (induction xs) auto

lemma credited_ethPart_usdc [simp]: "credited v (ethPart (map (\<lambda>(w, u). (w, u, 0)) xs)) = 0"
  by (induction xs) auto

lemma credited_usdcPart_eth [simp]: "credited v (usdcPart (map (\<lambda>(w, e). (w, 0, e)) xs)) = 0"
  by (induction xs) auto

lemma outflow_usdcPart_eth [simp]: "outflow t (usdcPart (map (\<lambda>(w, e). (w, 0, e)) xs)) = 0"
  by (induction xs) auto

lemma payUsdc_effect:
  assumes "payUsdc xs s = Inr s'"
  shows "\<forall>v. v \<noteq> thisAddress s \<longrightarrow> usdcBal s' v = usdcBal s v + credited v xs"
    and "usdcBal s' (thisAddress s) + outflow (thisAddress s) xs = usdcBal s (thisAddress s)"
  using payBoth_effect[OF assms[unfolded payUsdc_payBoth]] by simp_all

lemma payEth_effect:
  assumes "payEth xs s = Inr s'"
  shows "\<forall>v. v \<noteq> thisAddress s \<longrightarrow>
            ethBal s' v + unclaimedEth s' v = ethBal s v + unclaimedEth s v + credited v xs"
    and "\<forall>v. ethRejects s v \<longrightarrow> v \<noteq> thisAddress s \<longrightarrow>
            ethBal s' v = ethBal s v \<and> unclaimedEth s' v = unclaimedEth s v + credited v xs"
    and "usdcBal s' = usdcBal s"
proof -
  note e = payBoth_effect[OF assms[unfolded payEth_payBoth]]
  from e show "\<forall>v. v \<noteq> thisAddress s \<longrightarrow>
            ethBal s' v + unclaimedEth s' v = ethBal s v + unclaimedEth s v + credited v xs"
    by simp
  from e show "\<forall>v. ethRejects s v \<longrightarrow> v \<noteq> thisAddress s \<longrightarrow>
            ethBal s' v = ethBal s v \<and> unclaimedEth s' v = unclaimedEth s v + credited v xs"
    by simp
  from payEth_frame[OF assms] show "usdcBal s' = usdcBal s" by auto
qed

lemma usdcSafeTransfer_ok:
  assumes "u \<le> usdcBal s (thisAddress s)" and "\<not> usdcDenied s w"
  shows "\<exists>s0. usdcSafeTransfer w u s = Inr s0"
  using assms by (simp add: usdcSafeTransfer_def Let_def)

lemma payBoth_succeeds:
  assumes "\<forall>v. unclaimedEth s v + sum_list (map snd (ethPart xs)) \<le> MAX_UINT256"
    and "\<forall>x\<in>set xs. fst (snd x) > 0 \<longrightarrow> \<not> usdcDenied s (fst x)"
    and "sum_list (map snd (usdcPart xs)) \<le> usdcBal s (thisAddress s)"
  shows "\<exists>s'. payBoth xs s = Inr s'"
  using assms
proof (induction xs arbitrary: s)
  case Nil
  then show ?case by simp
next
  case (Cons x xs)
  obtain w u e where x: "x = (w, u, e)" by (cases x)
  have "\<exists>s0. (if u > 0 then usdcSafeTransfer w u s else Inr s) = Inr s0"
  proof (cases "u > 0")
    case True
    with Cons.prems(2,3) have "u \<le> usdcBal s (thisAddress s)" "\<not> usdcDenied s w"
      by (auto simp: x)
    from usdcSafeTransfer_ok[OF this] True show ?thesis by simp
  next
    case False
    then show ?thesis by simp
  qed
  then obtain s0 where a: "(if u > 0 then usdcSafeTransfer w u s else Inr s) = Inr s0" by blast
  note A = usdcStep_effect[OF a]
  have fit: "unclaimedEth s0 w + e \<le> MAX_UINT256"
    using Cons.prems(1)[rule_format, of w] by (simp add: x A(3))
  have "\<exists>s1. (if e > 0 then ethPayout w e s0 else Inr s0) = Inr s1"
    using ethPayout_conserves[OF fit] by (cases "e > 0") auto
  then obtain s1 where b: "(if e > 0 then ethPayout w e s0 else Inr s0) = Inr s1" by blast
  note B = ethStep_effect[OF b]
  have u1: "unclaimedEth s1 v \<le> unclaimedEth s v + (if v = w then e else 0)" for v
  proof (cases "e > 0")
    case True
    with b have "ethPayout w e s0 = Inr s1" by simp
    with ethPayout_conserves[OF fit] show ?thesis by (auto simp: A(3))
  next
    case False
    with b have "s1 = s0" by simp
    then show ?thesis by (simp add: A(3))
  qed
  have p1: "\<forall>v. unclaimedEth s1 v + sum_list (map snd (ethPart xs)) \<le> MAX_UINT256"
  proof
    fix v
    from u1[of v] Cons.prems(1)[rule_format, of v]
    show "unclaimedEth s1 v + sum_list (map snd (ethPart xs)) \<le> MAX_UINT256"
      by (simp add: x split: if_splits)
  qed
  have p2: "\<forall>x\<in>set xs. fst (snd x) > 0 \<longrightarrow> \<not> usdcDenied s1 (fst x)"
    using Cons.prems(2) by (simp add: A(5) B(3))
  have "usdcBal s0 (thisAddress s) + u \<ge> usdcBal s (thisAddress s)"
    using A(7) by (simp split: if_splits)
  with Cons.prems(3) have p3: "sum_list (map snd (usdcPart xs)) \<le> usdcBal s1 (thisAddress s1)"
    by (simp add: x A(1) B(1,2))
  from Cons.IH[OF p1 p2 p3] obtain s' where "payBoth xs s1 = Inr s'" by blast
  with a b show ?case by (simp add: x)
qed

lemma allocLoop_Inr:
  assumes "allocLoop d e t sps ud ed = Inr (us, es, udf, edf)"
  shows "us = map (\<lambda>sp. d * sp div t) sps \<and> es = map (\<lambda>sp. e * sp div t) sps \<and>
         udf = ud + sum_list us \<and> edf = ed + sum_list es"
  using assms
proof (induction sps arbitrary: ud ed us es)
  case Nil
  then show ?case by simp
next
  case (Cons sp sps)
  define u where "u = (if t > 0 then d * sp div t else 0)"
  define x where "x = (if t > 0 then e * sp div t else 0)"
  from Cons.prems obtain us' es' where
    r: "allocLoop d e t sps (ud + u) (ed + x) = Inr (us', es', udf, edf)"
    and eq: "us = u # us'" "es = x # es'"
    by (auto simp: bindE_eq_Inr add256_Inr mul256_Inr u_def x_def split: if_splits prod.splits)
  have "u = d * sp div t" "x = e * sp div t" by (simp_all add: u_def x_def)
  with Cons.IH[OF r] eq show ?case by simp
qed

lemma div_add_le_nat: "(a::nat) div t + b div t \<le> (a + b) div t"
proof (cases "t = 0")
  case True
  then show ?thesis by simp
next
  case False
  have "a div t * t \<le> a" "b div t * t \<le> b" by simp_all
  then have "(a div t + b div t) * t \<le> a + b"
    by (simp add: add_mult_distrib add_mono)
  with False show ?thesis by (simp add: less_eq_div_iff_mult_less_eq)
qed

lemma floors_sum_le:
  "sum_list (map (\<lambda>sp. d * sp div t) sps) \<le> (d::nat) * sum_list sps div t"
proof (induction sps)
  case Nil
  then show ?case by simp
next
  case (Cons sp sps)
  have "d * sp div t + d * sum_list sps div t \<le> (d * sp + d * sum_list sps) div t"
    by (rule div_add_le_nat)
  with Cons show ?case by (simp add: distrib_left)
qed

lemma floors_le_pool: "sum_list (floors pool sps) \<le> pool"
proof (cases "sum_list sps = 0")
  case True
  have "sum_list (map (\<lambda>sp. pool * sp div 0) sps) = 0"
    by (induction sps) simp_all
  then show ?thesis unfolding floors_def True by simp
next
  case False
  have "sum_list (floors pool sps) \<le> pool * sum_list sps div sum_list sps"
    unfolding floors_def by (rule floors_sum_le)
  with False show ?thesis by simp
qed

lemma length_floors [simp]: "length (floors pool sps) = length sps"
  by (simp add: floors_def)

lemma length_shares [simp]: "length (shares pool sps) = length sps"
  by (simp add: shares_def)

lemma sum_list_shares:
  assumes "sps \<noteq> []"
  shows "sum_list (shares pool sps) = pool"
proof -
  have ne: "floors pool sps \<noteq> []" using assms by (simp add: floors_def)
  have l: "length sps - 1 < length (floors pool sps)" using assms by simp
  have "last (floors pool sps) = floors pool sps ! (length sps - 1)"
    using ne by (simp add: last_conv_nth)
  then have "sum_list (shares pool sps) =
      sum_list (floors pool sps) + (pool - sum_list (floors pool sps))"
    unfolding shares_def using l by (simp add: sum_list_update)
  with floors_le_pool[of pool sps] show ?thesis by simp
qed

lemma shares_nth:
  assumes "i < length sps"
  shows "shares pool sps ! i =
           pool * (sps ! i) div sum_list sps +
           (if i = length sps - 1 then pool - sum_list (floors pool sps) else 0)"
proof -
  have "floors pool sps ! i = pool * (sps ! i) div sum_list sps"
    using assms by (simp add: floors_def)
  moreover have "last (floors pool sps) = floors pool sps ! (length sps - 1)"
  proof -
    from assms have "floors pool sps \<noteq> []" by (auto simp: floors_def)
    then show ?thesis by (simp add: last_conv_nth)
  qed
  ultimately show ?thesis
    using assms by (auto simp: shares_def nth_list_update)
qed

lemma addDust_Inr:
  assumes "addDust allocs distributed pool = Inr r" and "distributed = sum_list allocs"
    and "allocs = floors pool sps"
  shows "r = shares pool sps"
proof (cases "distributed < pool \<and> length allocs > 0")
  case True
  then have ne: "allocs \<noteq> []" by auto
  from assms(1) True have "r = allocs[length allocs - 1 := allocs ! (length allocs - 1) + (pool - distributed)]"
    by (auto simp: addDust_def bindE_eq_Inr add256_Inr sub256_Inr)
  with ne show ?thesis
    by (simp add: shares_def assms(2,3)[symmetric] last_conv_nth) (simp add: assms(3))
next
  case False
  with assms(1) have r: "r = allocs" by (auto simp: addDust_def)
  show ?thesis
  proof (cases "allocs = []")
    case True
    with r assms(3) show ?thesis by (simp add: shares_def)
  next
    case False
    with \<open>\<not> (distributed < pool \<and> length allocs > 0)\<close> have "pool - sum_list allocs = 0"
      using assms(2) by simp
    then show ?thesis
      using False r by (simp add: shares_def assms(3)[symmetric] last_conv_nth) (simp add: assms(3))
  qed
qed

lemma emergencyResolve_Inr:
  assumes "emergencyResolve sender now s = Inr s'"
    and "2 \<le> length (roundPlayers s (round_id (currentRound s)))"
  shows "\<exists>s2. sender = contractOwner s \<and> validateResolution now s = Inr () \<and>
           endTime (currentRound s) + EMERGENCY_TIMEOUT \<le> now \<and>
           rakeOf s \<le> prizePool (currentRound s) \<and>
           payBoth (zip (roundPlayers s (round_id (currentRound s)))
                     (zip (shares (distributableOf s) (spends s))
                          (shares (ethPrizePool (currentRound s)) (spends s))))
             (s\<lparr>accumulatedRake := accumulatedRake s + rakeOf s\<rparr>) = Inr s2 \<and>
           autoAdvance now (setResolved s2) = Inr s'"
proof -
  define ps where "ps = roundPlayers s (round_id (currentRound s))"
  define s1 where "s1 = s\<lparr>accumulatedRake := accumulatedRake s + rakeOf s\<rparr>"
  have sp: "map (totalSpent s (round_id (currentRound s))) ps = spends s"
    by (simp add: spends_def ps_def)
  from assms have a: "sender = contractOwner s" "validateResolution now s = Inr ()"
    "endTime (currentRound s) + EMERGENCY_TIMEOUT \<le> now"
    by (auto simp: emergencyResolve_def onlyOwner_def bindE_eq_Inr add256_Inr split: if_splits)
  from assms obtain totalBids ua0 ea0 ud ed ua ea s2 where
    t: "sumLoop (spends s) 0 = Inr totalBids"
    and rk: "rakeOf s \<le> prizePool (currentRound s)"
    and al: "allocLoop (distributableOf s) (ethPrizePool (currentRound s)) totalBids
               (spends s) 0 0 = Inr (ua0, ea0, ud, ed)"
    and d1: "addDust ua0 ud (distributableOf s) = Inr ua"
    and d2: "addDust ea0 ed (ethPrizePool (currentRound s)) = Inr ea"
    and p: "payBoth (zip ps (zip ua ea)) s1 = Inr s2"
    and f: "autoAdvance now (setResolved s2) = Inr s'"
    unfolding emergencyResolve_def Let_def
    by (auto simp: bindE_eq_Inr add256_Inr sub256_Inr mul256_Inr onlyOwner_def
        distributableOf_def rakeOf_def ps_def[symmetric] s1_def sp
        split: if_splits prod.splits)
  from sumLoop_Inr[OF t] have tb: "totalBids = sum_list (spends s)" by simp
  from allocLoop_Inr[OF al] have
    u0: "ua0 = floors (distributableOf s) (spends s)"
    and e0: "ea0 = floors (ethPrizePool (currentRound s)) (spends s)"
    and ud: "ud = sum_list ua0" and ed: "ed = sum_list ea0"
    by (simp_all add: floors_def tb)
  from addDust_Inr[OF d1 ud u0] have ua: "ua = shares (distributableOf s) (spends s)" .
  from addDust_Inr[OF d2 ed e0] have ea: "ea = shares (ethPrizePool (currentRound s)) (spends s)" .
  from a rk p f show ?thesis
    unfolding ua ea ps_def s1_def by blast
qed

lemma credited_notin:
  "w \<notin> fst ` set xs \<Longrightarrow> credited w xs = 0"
  by (induction xs) (auto simp: credited_def)

lemma credited_zip_nth:
  assumes "distinct ps" and "i < length ps" and "length xs = length ps"
  shows "credited (ps ! i) (zip ps xs) = xs ! i"
  using assms
proof (induction ps arbitrary: i xs)
  case Nil
  then show ?case by simp
next
  case (Cons p ps)
  then obtain x xs' where xs: "xs = x # xs'" by (cases xs) auto
  show ?case
  proof (cases i)
    case 0
    have "p \<notin> fst ` set (zip ps xs')" using Cons.prems(1) by (auto dest: set_zip_leftD)
    then show ?thesis using 0 by (simp add: xs credited_notin)
  next
    case (Suc j)
    with Cons.prems have "ps ! j \<noteq> p" by auto
    with Cons.IH[of j xs'] Cons.prems Suc show ?thesis by (simp add: xs)
  qed
qed

lemma outflow_zip:
  assumes "t \<notin> set ps" and "length xs = length ps"
  shows "outflow t (zip ps xs) = sum_list xs"
  using assms
proof (induction ps arbitrary: xs)
  case Nil
  then show ?case by simp
next
  case (Cons p ps)
  then obtain x xs' where xs: "xs = x # xs'" by (cases xs) auto
  with Cons show ?case by simp
qed

lemma advance_ledgers:
  assumes "autoAdvance now (setResolved s2) = Inr s'"
  shows "usdcBal s' = usdcBal s2" "ethBal s' = ethBal s2" "unclaimedEth s' = unclaimedEth s2"
    "accumulatedRake s' = accumulatedRake s2" "thisAddress s' = thisAddress s2"
  using autoAdvance_Inr[OF assms] by (auto simp: setResolved_def)

lemma usdcPart_zip [simp]:
  "length us = length ps \<Longrightarrow> length es = length ps \<Longrightarrow> usdcPart (zip ps (zip us es)) = zip ps us"
proof (induction ps arbitrary: us es)
  case Nil
  then show ?case by simp
next
  case (Cons p ps)
  then obtain u us' e es' where "us = u # us'" "es = e # es'"
    by (cases us; cases es) auto
  with Cons show ?case by simp
qed

lemma ethPart_zip [simp]:
  "length us = length ps \<Longrightarrow> length es = length ps \<Longrightarrow> ethPart (zip ps (zip us es)) = zip ps es"
proof (induction ps arbitrary: us es)
  case Nil
  then show ?case by simp
next
  case (Cons p ps)
  then obtain u us' e es' where "us = u # us'" "es = e # es'"
    by (cases us; cases es) auto
  with Cons show ?case by simp
qed

lemma length_spends [simp]: "length (spends s) = length (currentPlayers s)"
  by (simp add: spends_def currentPlayers_def)



lemma payBoth_not_denied:
  assumes "payBoth xs s = Inr s'" and "(w, u, e) \<in> set xs" and "u > 0"
  shows "\<not> usdcDenied s w"
  using assms
proof (induction xs arbitrary: s)
  case Nil
  then show ?case by simp
next
  case (Cons x xs)
  obtain w' u' e' where x: "x = (w', u', e')" by (cases x)
  from Cons.prems(1) obtain s0 s1 where
    a: "(if u' > 0 then usdcSafeTransfer w' u' s else Inr s) = Inr s0"
    and b: "(if e' > 0 then ethPayout w' e' s0 else Inr s0) = Inr s1"
    and c: "payBoth xs s1 = Inr s'"
    by (auto simp: x bindE_eq_Inr)
  note A = usdcStep_effect[OF a]
  note B = ethStep_effect[OF b]
  show ?case
  proof (cases "(w, u, e) = x")
    case True
    with A(8) Cons.prems(3) x show ?thesis by simp
  next
    case False
    with Cons.prems(2) have "(w, u, e) \<in> set xs" by simp
    from Cons.IH[OF c this Cons.prems(3)] show ?thesis by (simp add: A(5) B(3))
  qed
qed

lemma payUsdc_not_denied:
  assumes "payUsdc xs s = Inr s'" and "(w, u) \<in> set xs" and "u > 0"
  shows "\<not> usdcDenied s w"
proof -
  from assms(2) have "(w, u, 0) \<in> set (map (\<lambda>(w, u). (w, u, 0)) xs)" by force
  from payBoth_not_denied[OF assms(1)[unfolded payUsdc_payBoth] this assms(3)] show ?thesis .
qed

lemma payUsdc_Inl: "payUsdc xs s = Inl e \<Longrightarrow> e = TokenTransferFailed"
proof (induction xs arbitrary: s)
  case Nil
  then show ?case by simp
next
  case (Cons x xs)
  obtain w a where x: "x = (w, a)" by (cases x)
  show ?case
  proof (cases "if a > 0 then usdcSafeTransfer w a s else Inr s")
    case (Inl e')
    then have "e' = TokenTransferFailed"
      by (auto simp: usdcSafeTransfer_def Let_def split: if_splits)
    with Inl Cons.prems show ?thesis by (simp add: x)
  next
    case (Inr s0)
    with Cons.prems have "payUsdc xs s0 = Inl e" by (simp add: x)
    then show ?thesis by (rule Cons.IH)
  qed
qed

lemma payUsdc_denied:
  assumes "(w, u) \<in> set xs" and "u > 0" and "usdcDenied s w"
  shows "payUsdc xs s = Inl TokenTransferFailed"
proof (cases "payUsdc xs s")
  case (Inl e)
  with payUsdc_Inl[OF Inl] show ?thesis by simp
next
  case (Inr s')
  from payUsdc_not_denied[OF Inr assms(1,2)] assms(3) show ?thesis by simp
qed

lemma resolveRound_usdc_fails:
  assumes "sender = oracleAddress s" and "validateResolution now s = Inr ()"
    and "2 \<le> length (roundPlayers s (round_id (currentRound s)))"
    and "rakeFits s" and "length ws = length us" and "sum_list us = distributableOf s"
    and "(w, u) \<in> set (zip ws us)" and "u > 0" and "usdcDenied s w"
  shows "resolveRound sender now ws us es s = Inl TokenTransferFailed"
proof -
  have d: "distributableOf s \<le> MAX_UINT256"
    using assms(4) by (auto simp: rakeFits_def distributableOf_def)
  have "payUsdc (zip ws us) (s\<lparr>accumulatedRake := accumulatedRake s + rakeOf s\<rparr>) =
          Inl TokenTransferFailed"
    using assms(7-9) by (intro payUsdc_denied[of w u]) simp_all
  then show ?thesis
    using assms(1-6) sumLoop_fits[of 0 us] d
    by (auto simp: resolveRound_def onlyOracle_def Let_def rakeFits_def rakeOf_def
      distributableOf_def mul256_def sub256_def add256_def)
qed

lemma claimEth_pays:
  assumes "unclaimedEth s w > 0" and "\<not> ethRejects s w"
    and "unclaimedEth s w \<le> ethBal s (thisAddress s)" and "w \<noteq> thisAddress s"
  shows "\<exists>s'. claimEth w s = Inr s' \<and> unclaimedEth s' w = 0 \<and>
           ethBal s' w = ethBal s w + unclaimedEth s w"
  using assms by (simp add: claimEth_def ethCall_def Let_def)

lemma autoAdvance_ok:
  assumes "round_id (currentRound s) + 1 \<le> MAX_UINT256"
  shows "\<exists>s'. autoAdvance now s = Inr s'"
  using assms by (simp add: autoAdvance_def createRound_def add256_def Let_def)

lemma map_snd_zip_eq: "length ws = length es \<Longrightarrow> map snd (zip ws es) = es"
  by (simp add: map_snd_zip)

lemma sum_snd_ethPart_usdc:
  "sum_list (map snd (ethPart (map (\<lambda>(w, u). (w, u, 0)) xs))) = 0"
  by (induction xs) auto

lemma resolveRound_succeeds:
  assumes "sender = oracleAddress s" and "validateResolution now s = Inr ()"
    and "2 \<le> length (roundPlayers s (round_id (currentRound s)))"
    and "rakeFits s" and "length ws = length us" and "sum_list us = distributableOf s"
    and nd: "\<forall>x\<in>set (zip ws us). snd x > 0 \<longrightarrow> \<not> usdcDenied s (fst x)"
    and bal: "distributableOf s \<le> usdcBal s (thisAddress s)"
    and "ethPrizePool (currentRound s) > 0"
    and "length es = length ws" and "sum_list es = ethPrizePool (currentRound s)"
    and un: "\<forall>v. unclaimedEth s v + ethPrizePool (currentRound s) \<le> MAX_UINT256"
    and "round_id (currentRound s) + 1 \<le> MAX_UINT256"
  shows "\<exists>s2 s3 s'. payUsdc (zip ws us) (s\<lparr>accumulatedRake := accumulatedRake s + rakeOf s\<rparr>) = Inr s2 \<and>
           payEth (zip ws es) s2 = Inr s3 \<and> autoAdvance now (setResolved s3) = Inr s' \<and>
           resolveRound sender now ws us es s = Inr s'"
proof -
  define s1 where "s1 = s\<lparr>accumulatedRake := accumulatedRake s + rakeOf s\<rparr>"
  have d: "distributableOf s \<le> MAX_UINT256"
    using assms(4) by (auto simp: rakeFits_def distributableOf_def)
  have e: "ethPrizePool (currentRound s) \<le> MAX_UINT256"
    using un[rule_format, of 0] by simp
  have "\<exists>s2. payBoth (map (\<lambda>(w, u). (w, u, 0)) (zip ws us)) s1 = Inr s2"
  proof (rule payBoth_succeeds)
    show "\<forall>v. unclaimedEth s1 v +
        sum_list (map snd (ethPart (map (\<lambda>(w, u). (w, u, 0)) (zip ws us)))) \<le> MAX_UINT256"
    proof
      fix v
      from un[rule_format, of v] have "unclaimedEth s v \<le> MAX_UINT256" by simp
      then show "unclaimedEth s1 v +
          sum_list (map snd (ethPart (map (\<lambda>(w, u). (w, u, 0)) (zip ws us)))) \<le> MAX_UINT256"
        unfolding sum_snd_ethPart_usdc by (simp add: s1_def)
    qed
    show "\<forall>x\<in>set (map (\<lambda>(w, u). (w, u, 0)) (zip ws us)).
        fst (snd x) > 0 \<longrightarrow> \<not> usdcDenied s1 (fst x)"
      using nd by (auto simp: s1_def)
    show "sum_list (map snd (usdcPart (map (\<lambda>(w, u). (w, u, 0)) (zip ws us)))) \<le>
        usdcBal s1 (thisAddress s1)"
      using bal assms(5,6) by (simp add: s1_def map_snd_zip)
  qed
  then obtain s2 where p: "payUsdc (zip ws us) s1 = Inr s2"
    by (auto simp: payUsdc_payBoth)
  from payUsdc_frame[OF p] have fr: "currentRound s2 = currentRound s"
    "unclaimedEth s2 = unclaimedEth s" by (auto simp: s1_def)
  have "\<forall>v. unclaimedEth s2 v + sum_list (map snd (zip ws es)) \<le> MAX_UINT256"
    using un assms(10,11) by (simp add: fr map_snd_zip)
  from payEth_conserves[OF this] obtain s3 where q: "payEth (zip ws es) s2 = Inr s3" by blast
  from payEth_frame[OF q] have fr3: "currentRound s3 = currentRound s" by (auto simp: fr)
  have "round_id (currentRound (setResolved s3)) + 1 \<le> MAX_UINT256"
    using assms(13) by (simp add: setResolved_def fr3)
  from autoAdvance_ok[OF this] obtain s' where f: "autoAdvance now (setResolved s3) = Inr s'"
    by blast
  have "resolveRound sender now ws us es s = Inr s'"
    using assms(1-6,9-11) sumLoop_fits[of 0 us] sumLoop_fits[of 0 es] d e
    by (auto simp: resolveRound_def onlyOracle_def Let_def rakeFits_def rakeOf_def
      distributableOf_def mul256_def sub256_def add256_def
      p[unfolded s1_def rakeOf_def] fr q f)
  with p q f show ?thesis unfolding s1_def by blast
qed

lemma allocLoop_ok:
  assumes "list_all (\<lambda>sp. d * sp \<le> MAX_UINT256 \<and> e * sp \<le> MAX_UINT256) sps"
    and "ud + sum_list (map (\<lambda>sp. d * sp div t) sps) \<le> MAX_UINT256"
    and "ed + sum_list (map (\<lambda>sp. e * sp div t) sps) \<le> MAX_UINT256"
  shows "allocLoop d e t sps ud ed =
           Inr (map (\<lambda>sp. d * sp div t) sps, map (\<lambda>sp. e * sp div t) sps,
                ud + sum_list (map (\<lambda>sp. d * sp div t) sps),
                ed + sum_list (map (\<lambda>sp. e * sp div t) sps))"
  using assms
proof (induction sps arbitrary: ud ed)
  case Nil
  then show ?case by simp
next
  case (Cons sp sps)
  have u: "(if t > 0 then bindE (mul256 d sp) (\<lambda>m. Inr (m div t)) else Inr 0) = Inr (d * sp div t)"
    using Cons.prems(1) by (simp add: mul256_def)
  have x: "(if t > 0 then bindE (mul256 e sp) (\<lambda>m. Inr (m div t)) else Inr 0) = Inr (e * sp div t)"
    using Cons.prems(1) by (simp add: mul256_def)
  have a: "add256 ud (d * sp div t) = Inr (ud + d * sp div t)"
    "add256 ed (e * sp div t) = Inr (ed + e * sp div t)"
    using Cons.prems(2,3) by (simp_all add: add256_def)
  have r: "allocLoop d e t sps (ud + d * sp div t) (ed + e * sp div t) =
           Inr (map (\<lambda>sp. d * sp div t) sps, map (\<lambda>sp. e * sp div t) sps,
                ud + d * sp div t + sum_list (map (\<lambda>sp. d * sp div t) sps),
                ed + e * sp div t + sum_list (map (\<lambda>sp. e * sp div t) sps))"
    using Cons.prems by (intro Cons.IH) (simp_all add: add.assoc)
  show ?case
    unfolding allocLoop.simps u x a bindE_Inr r by (simp add: add.assoc)
qed

lemma addDust_ok:
  assumes "pool \<le> MAX_UINT256"
  shows "addDust (floors pool sps) (sum_list (floors pool sps)) pool = Inr (shares pool sps)"
proof (cases "sum_list (floors pool sps) < pool \<and> length (floors pool sps) > 0")
  case True
  then have ne: "floors pool sps \<noteq> []" by (auto simp: floors_def)
  have "floors pool sps ! (length sps - 1) \<le> sum_list (floors pool sps)"
    using ne by (intro member_le_sum_list) (auto simp: floors_def)
  then have fit: "floors pool sps ! (length sps - 1) + (pool - sum_list (floors pool sps)) \<le> MAX_UINT256"
    using assms True by simp
  show ?thesis
    using True fit ne
    by (simp add: addDust_def sub256_def add256_def shares_def last_conv_nth)
next
  case False
  have "shares pool sps = floors pool sps"
  proof (cases "floors pool sps = []")
    case True
    then show ?thesis by (simp add: shares_def)
  next
    case ne: False
    then have "sps \<noteq> []" by (auto simp: floors_def)
    with False floors_le_pool[of pool sps] have "pool - sum_list (floors pool sps) = 0" by auto
    with ne show ?thesis by (simp add: shares_def last_conv_nth)
  qed
  with False show ?thesis by (auto simp: addDust_def)
qed

lemma sum_snd_zip_shares:
  "length ps = length sp \<Longrightarrow> sp \<noteq> [] \<Longrightarrow> sum_list (map snd (zip ps (shares pool sp))) = pool"
  by (simp add: map_snd_zip sum_list_shares)

lemma emergencyResolve_succeeds:
  assumes ow: "sender = contractOwner s" and va: "validateResolution now s = Inr ()"
    and rd: "endTime (currentRound s) + EMERGENCY_TIMEOUT \<le> now"
    and two: "2 \<le> length (currentPlayers s)"
    and fits: "emergencyFits s"
    and nd: "\<forall>x\<in>set (zip (currentPlayers s) (shares (distributableOf s) (spends s))).
               snd x > 0 \<longrightarrow> \<not> usdcDenied s (fst x)"
    and bal: "distributableOf s \<le> usdcBal s (thisAddress s)"
    and un: "\<forall>v. unclaimedEth s v + ethPrizePool (currentRound s) \<le> MAX_UINT256"
  shows "\<exists>s2 s'. payBoth (zip (currentPlayers s)
                     (zip (shares (distributableOf s) (spends s))
                          (shares (ethPrizePool (currentRound s)) (spends s))))
             (s\<lparr>accumulatedRake := accumulatedRake s + rakeOf s\<rparr>) = Inr s2 \<and>
           autoAdvance now (setResolved s2) = Inr s' \<and>
           emergencyResolve sender now s = Inr s'"
proof -
  define D where "D = distributableOf s"
  define E where "E = ethPrizePool (currentRound s)"
  define ps where "ps = roundPlayers s (round_id (currentRound s))"
  define sp where "sp = map (totalSpent s (round_id (currentRound s))) ps"
  define s1 where "s1 = s\<lparr>accumulatedRake := accumulatedRake s + rakeOf s\<rparr>"
  define xs where "xs = zip ps (zip (shares D sp) (shares E sp))"
  have sp': "spends s = sp" "currentPlayers s = ps"
    by (simp_all add: spends_def sp_def ps_def currentPlayers_def)
  have ne: "sp \<noteq> []" "length ps = length sp" using two by (auto simp: sp_def sp'(2)[symmetric])
  have len: "length (shares D sp) = length ps" "length (shares E sp) = length ps"
    by (simp_all add: ne)
  from fits have rf: "rakeFits s" and sf: "sum_list sp \<le> MAX_UINT256"
    and ef: "E \<le> MAX_UINT256" and tf: "endTime (currentRound s) + EMERGENCY_TIMEOUT \<le> MAX_UINT256"
    and idf: "round_id (currentRound s) + 1 \<le> MAX_UINT256"
    and pf: "list_all (\<lambda>x. D * x \<le> MAX_UINT256 \<and> E * x \<le> MAX_UINT256) sp"
    by (simp_all add: emergencyFits_def sp' D_def E_def)
  have df: "D \<le> MAX_UINT256"
    using rf by (auto simp: rakeFits_def distributableOf_def D_def)
  text \<open>the payment loop\<close>
  have "\<exists>s2. payBoth xs s1 = Inr s2"
  proof (rule payBoth_succeeds)
    show "\<forall>v. unclaimedEth s1 v + sum_list (map snd (ethPart xs)) \<le> MAX_UINT256"
      using un ne by (simp add: xs_def len s1_def map_snd_zip sum_list_shares E_def)
    show "\<forall>x\<in>set xs. fst (snd x) > 0 \<longrightarrow> \<not> usdcDenied s1 (fst x)"
    proof
      fix x assume x: "x \<in> set xs"
      obtain w u e where xe: "x = (w, u, e)" by (cases x)
      with x have "(w, u) \<in> set (zip ps (shares D sp))"
        unfolding xs_def by (auto dest!: set_zip_rightD intro: in_set_zipE
            simp: set_zip) 
      with nd[unfolded sp', folded D_def] show "fst (snd x) > 0 \<longrightarrow> \<not> usdcDenied s1 (fst x)"
        by (auto simp: xe s1_def)
    qed
    show "sum_list (map snd (usdcPart xs)) \<le> usdcBal s1 (thisAddress s1)"
      using bal ne by (simp add: xs_def len s1_def map_snd_zip sum_list_shares D_def)
  qed
  then obtain s2 where p: "payBoth xs s1 = Inr s2" by blast
  from payBoth_frame[OF p] have fr: "currentRound s2 = currentRound s" by (auto simp: s1_def)
  have "round_id (currentRound (setResolved s2)) + 1 \<le> MAX_UINT256"
    using idf by (simp add: setResolved_def fr)
  from autoAdvance_ok[OF this] obtain s' where f: "autoAdvance now (setResolved s2) = Inr s'"
    by blast
  text \<open>the stages of the function\<close>
  have q1: "sumLoop sp 0 = Inr (sum_list sp)"
    using sumLoop_fits[of 0 sp] sf by simp
  have q2: "allocLoop D E (sum_list sp) sp 0 0 =
              Inr (floors D sp, floors E sp, sum_list (floors D sp), sum_list (floors E sp))"
    using allocLoop_ok[of D E sp 0 "sum_list sp" 0] pf floors_le_pool[of D sp]
      floors_le_pool[of E sp] df ef
    by (simp add: floors_def)
  have q3: "addDust (floors D sp) (sum_list (floors D sp)) D = Inr (shares D sp)"
    "addDust (floors E sp) (sum_list (floors E sp)) E = Inr (shares E sp)"
    using df ef by (simp_all add: addDust_ok)
  have q0: "\<not> length ps < 2" using two by (simp add: sp')
  have r1: "mul256 (prizePool (currentRound s)) (rakeBps s) =
              Inr (prizePool (currentRound s) * rakeBps s)"
    and r2: "sub256 (prizePool (currentRound s)) (prizePool (currentRound s) * rakeBps s div 10000) = Inr D"
    and r3: "add256 (accumulatedRake s) (prizePool (currentRound s) * rakeBps s div 10000) =
              Inr (accumulatedRake s + rakeOf s)"
    and r4: "add256 (endTime (currentRound s)) EMERGENCY_TIMEOUT =
              Inr (endTime (currentRound s) + EMERGENCY_TIMEOUT)"
    using rf tf
    by (simp_all add: rakeFits_def rakeOf_def distributableOf_def D_def mul256_def sub256_def
        add256_def)
  have r: "emergencyResolve sender now s = Inr s'"
    unfolding emergencyResolve_def Let_def onlyOwner_def
    using ow rd q0
    by (simp add: va r4 ps_def[symmetric] sp_def[symmetric] q1 r1 r2 r3 E_def[symmetric] q2 q3
        xs_def[symmetric] s1_def[symmetric] p f)
  show ?thesis
    unfolding sp' D_def[symmetric] E_def[symmetric] s1_def[symmetric] xs_def[symmetric]
    using p f r by blast
qed

lemma payBoth_pays:
  assumes "payBoth xs s = Inr s'"
    and "sum_list (map snd (ethPart xs)) \<le> ethBal s (thisAddress s)"
    and "\<not> ethRejects s v"
  shows "unclaimedEth s' v = unclaimedEth s v"
  using assms
proof (induction xs arbitrary: s)
  case Nil
  then show ?case by simp
next
  case (Cons x xs)
  obtain w u e where x: "x = (w, u, e)" by (cases x)
  from Cons.prems(1) obtain s0 s1 where
    a: "(if u > 0 then usdcSafeTransfer w u s else Inr s) = Inr s0"
    and b: "(if e > 0 then ethPayout w e s0 else Inr s0) = Inr s1"
    and c: "payBoth xs s1 = Inr s'"
    by (auto simp: x bindE_eq_Inr)
  note A = usdcStep_effect[OF a]
  have le: "e \<le> ethBal s0 (thisAddress s0)"
    "sum_list (map snd (ethPart xs)) + e \<le> ethBal s0 (thisAddress s0)"
    using Cons.prems(2) by (simp_all add: x A)
  have eq: "s1 = (if e > 0 then
                   (if ethRejects s0 w
                    then s0\<lparr>unclaimedEth := (unclaimedEth s0)(w := unclaimedEth s0 w + e)\<rparr>
                    else s0\<lparr>ethBal := ((ethBal s0)(thisAddress s0 := ethBal s0 (thisAddress s0) - e))(w :=
                        ((ethBal s0)(thisAddress s0 := ethBal s0 (thisAddress s0) - e)) w + e)\<rparr>)
                  else s0)"
    using b ethPayout_Inr[of w e s0 s1] le(1) by (cases "e > 0") (simp_all add: not_less[symmetric])
  have u1: "unclaimedEth s1 v = unclaimedEth s v"
    using Cons.prems(3) by (auto simp: eq A)
  have r1: "\<not> ethRejects s1 v" using Cons.prems(3) by (simp add: eq A)
  have b1: "sum_list (map snd (ethPart xs)) \<le> ethBal s1 (thisAddress s1)"
    using le(2) by (auto simp: eq)
  from Cons.IH[OF c b1 r1] u1 show ?case by simp
qed

lemma advance_settled:
  assumes "autoAdvance now (setResolved s2) = Inr s'"
  shows "resolved (currentRound s') \<or>
         round_id (currentRound s') = round_id (currentRound s2) + 1"
  using autoAdvance_Inr[OF assms] by (auto simp: setResolved_def)

lemma payBoth_ethSettled:
  assumes p: "payBoth xs s1 = Inr s2" and f: "autoAdvance now (setResolved s2) = Inr s'"
    and t: "thisAddress s1 = thisAddress s" "ethBal s1 = ethBal s"
           "unclaimedEth s1 = unclaimedEth s" "ethRejects s1 = ethRejects s"
           "currentRound s1 = currentRound s"
    and pay: "ethPart xs = pay"
  shows "ethSettled s s' pay"
proof -
  note L = advance_ledgers[OF f]
  note P = payBoth_effect[OF p, unfolded pay]
  from payBoth_frame[OF p] have cr: "currentRound s2 = currentRound s" by (auto simp: t)
  have 1: "resolved (currentRound s') \<or>
      round_id (currentRound s') = round_id (currentRound s) + 1"
    using advance_settled[OF f] by (simp add: cr)
  have 2: "\<forall>v. v \<noteq> thisAddress s \<longrightarrow>
        ethBal s' v + unclaimedEth s' v = ethBal s v + unclaimedEth s v + credited v pay"
    using P by (simp add: L t)
  have 3: "\<forall>v. ethRejects s v \<longrightarrow> v \<noteq> thisAddress s \<longrightarrow>
        ethBal s' v = ethBal s v \<and> unclaimedEth s' v = unclaimedEth s v + credited v pay"
    using P by (simp add: L t)
  have 4: "\<forall>v. \<not> ethRejects s v \<longrightarrow> v \<noteq> thisAddress s \<longrightarrow>
           unclaimedEth s' v = unclaimedEth s v \<and> ethBal s' v = ethBal s v + credited v pay"
    if le: "sum_list (map snd pay) \<le> ethBal s (thisAddress s)"
  proof (intro allI impI)
    fix v assume v: "\<not> ethRejects s v" "v \<noteq> thisAddress s"
    from payBoth_pays[OF p, of v] le v have u: "unclaimedEth s' v = unclaimedEth s v"
      by (simp add: pay t L)
    from 2 v have "ethBal s' v + unclaimedEth s' v = ethBal s v + unclaimedEth s v + credited v pay"
      by simp
    with u show "unclaimedEth s' v = unclaimedEth s v \<and> ethBal s' v = ethBal s v + credited v pay"
      by simp
  qed
  from 1 2 3 4 show ?thesis unfolding ethSettled_def by blast
qed


lemmas evp = demoTwoEth_eq demoTwo_eq apply_tx_def evr bindE_def add256_def sub256_def
  mul256_def MAX_UINT256_def Let_def clearSlots_def



end
